theory Spec2Isabelle
  imports Complex_Main "HOL-Library.Word"
begin

unbundle bit_operations_syntax

section \<open>Node and flag model (map\_adt.h, class Node)\<close>

text \<open>
  The flags byte of a node is a \<open>uint8_t\<close>; the enum \<open>Flags\<close> names its masks:
  bit 0 is DEAD, bit 1 is RED, and a new node gets DEFAULT = RED (red and alive).
\<close>

type_synonym uint8_t = "8 word"

definition ZERO :: uint8_t where "ZERO = 0x00"
definition DEAD :: uint8_t where "DEAD = 0x01"
definition RED :: uint8_t where "RED = 0x02"
definition DEFAULT :: uint8_t where "DEFAULT = RED"

text \<open>\<open>fsu::Entry<K,D>\<close>: a key and a data value. The members \<open>key_\<close>, \<open>data_\<close>,
  \<open>value_\<close>, \<open>lchild_\<close>, \<open>rchild_\<close>, \<open>flags_\<close> and \<open>root_\<close> lose their trailing underscore.\<close>

datatype ('k, 'd) Entry = Entry (key: 'k) (data: 'd)

text \<open>
  A node owns its two children, and no node is shared between two parents or two maps, so
  a node pointer is modelled by the subtree it points to; \<open>Null\<close> is \<open>nullptr\<close>.
\<close>

datatype ('k, 'd) Node =
    Null
  | Node (val: "('k, 'd) Entry") (lchild: "('k, 'd) Node") (rchild: "('k, 'd) Node")
         (flags: uint8_t)

text \<open>The flag accessors of class Node, on the flags byte.\<close>

definition IsRed :: "uint8_t \<Rightarrow> bool" where "IsRed f = (0 \<noteq> (RED AND f))"
definition IsBlack :: "uint8_t \<Rightarrow> bool" where "IsBlack f = (\<not> IsRed f)"
definition IsDead :: "uint8_t \<Rightarrow> bool" where "IsDead f = (0 \<noteq> (DEAD AND f))"
definition IsAlive :: "uint8_t \<Rightarrow> bool" where "IsAlive f = (\<not> IsDead f)"
definition SetRed :: "uint8_t \<Rightarrow> uint8_t" where "SetRed f = (f OR RED)"
definition SetBlack :: "uint8_t \<Rightarrow> uint8_t" where "SetBlack f = (f AND NOT RED)"
definition SetDead :: "uint8_t \<Rightarrow> uint8_t" where "SetDead f = (f OR DEAD)"
definition SetAlive :: "uint8_t \<Rightarrow> uint8_t" where "SetAlive f = (f AND NOT DEAD)"

text \<open>\<open>RightChildIsRed\<close> and \<open>LeftChildIsRed\<close>: a null child is not red.
  They are only ever called on a node that exists.\<close>

fun RightChildIsRed :: "('k, 'd) Node \<Rightarrow> bool" where
  "RightChildIsRed (Node e l (Node re rl rr rf) f) = IsRed rf"
| "RightChildIsRed _ = False"

fun LeftChildIsRed :: "('k, 'd) Node \<Rightarrow> bool" where
  "LeftChildIsRed (Node e (Node le ll lr lf) r f) = IsRed lf"
| "LeftChildIsRed _ = False"

text \<open>\<open>NewNode\<close>: allocation is taken to succeed (the source only logs a failure and
  then uses the null pointer).\<close>

definition NewNode :: "'k \<Rightarrow> 'd \<Rightarrow> uint8_t \<Rightarrow> ('k, 'd) Node" where
  "NewNode k d fl = Node (Entry k d) Null Null fl"

section \<open>Rotations\<close>

text \<open>
  A rotation returns the new subtree root together with what it wrote to \<open>std::cerr\<close>.
\<close>

definition RotateLeft_msg :: string where
  "RotateLeft_msg = '' ** RotateLeft called with black right child'' @ [CHR 0x0A]"

definition RotateRight_msg :: string where
  "RotateRight_msg = '' ** RotateRight called with black left child'' @ [CHR 0x0A]"

fun RotateLeft :: "('k, 'd) Node \<Rightarrow> ('k, 'd) Node \<times> string list" where
  "RotateLeft Null = (Null, [])"
| "RotateLeft (Node e l Null f) = (Node e l Null f, [])"
| "RotateLeft (Node e l (Node pe pl pr pf) f) =
     (if \<not> IsRed pf then (Node e l (Node pe pl pr pf) f, [RotateLeft_msg])
      else (Node pe (Node e l pl (SetRed f)) pr (if IsRed f then SetRed pf else SetBlack pf), []))"

fun RotateRight :: "('k, 'd) Node \<Rightarrow> ('k, 'd) Node \<times> string list" where
  "RotateRight Null = (Null, [])"
| "RotateRight (Node e Null r f) = (Node e Null r f, [])"
| "RotateRight (Node e (Node pe pl pr pf) r f) =
     (if \<not> IsRed pf then (Node e (Node pe pl pr pf) r f, [RotateRight_msg])
      else (Node pe pl (Node e pr r (SetRed f)) (if IsRed f then SetRed pf else SetBlack pf), []))"

section \<open>The balanced-tree engine: RGet and RInsert\<close>

text \<open>
  The comparator \<open>pred_\<close> is the template's default \<open>LessThan<K>\<close>, the order \<open><\<close>
  of the key type.

  Both recursive primitives end with the same three repair steps, written out once here:
  rotate left when the right child is red and the left one is not, rotate right when the
  left child and its left child are both red, and flip the colours when both children are
  red. A rotation whose pivot is red writes nothing to \<open>std::cerr\<close>, so only the returned
  node is kept.
\<close>

fun ColorFlip :: "('k, 'd) Node \<Rightarrow> ('k, 'd) Node" where
  "ColorFlip (Node e (Node le ll lr lf) (Node re rl rr rf) f) =
     Node e (Node le ll lr (SetBlack lf)) (Node re rl rr (SetBlack rf)) (SetRed f)"
| "ColorFlip n = n"

definition Repair :: "('k, 'd) Node \<Rightarrow> ('k, 'd) Node" where
  "Repair n =
     (let n1 = (if RightChildIsRed n \<and> \<not> LeftChildIsRed n then fst (RotateLeft n) else n);
          n2 = (if LeftChildIsRed n1 \<and> LeftChildIsRed (lchild n1)
                then fst (RotateRight n1) else n1)
      in if LeftChildIsRed n2 \<and> RightChildIsRed n2 then ColorFlip n2 else n2)"

fun RInsert :: "('k::linorder, 'd) Node \<Rightarrow> 'k \<Rightarrow> 'd \<Rightarrow> ('k, 'd) Node" where
  "RInsert Null k d = NewNode k d DEFAULT"
| "RInsert (Node e l r f) k d =
     Repair (if k < key e then Node e (RInsert l k d) r f
             else if key e < k then Node e l (RInsert r k d) f
             else Node (Entry (key e) d) l r (SetAlive f))"

text \<open>
  \<open>RGet\<close> also hands back \<open>location\<close>, a pointer to the node that holds the key. A pointer
  into the tree is modelled by the path that leads from the subtree root to the node.
  The node an existing pointer refers to does not change when a rotation moves it, so its
  path does: \<open>RotateLeft_loc n loc\<close> is the path, below the node \<open>RotateLeft n\<close> returns,
  of the node that was at \<open>loc\<close> below \<open>n\<close>. A colour flip moves no node.
\<close>

datatype turn = GoLeft | GoRight

type_synonym location = "turn list"

fun RotateLeft_loc :: "('k, 'd) Node \<Rightarrow> location \<Rightarrow> location" where
  "RotateLeft_loc (Node e l (Node pe pl pr pf) f) loc =
     (if \<not> IsRed pf then loc
      else (case loc of
              [] \<Rightarrow> [GoLeft]
            | GoLeft # q \<Rightarrow> GoLeft # GoLeft # q
            | [GoRight] \<Rightarrow> []
            | GoRight # GoLeft # q \<Rightarrow> GoLeft # GoRight # q
            | GoRight # GoRight # q \<Rightarrow> GoRight # q))"
| "RotateLeft_loc n loc = loc"

fun RotateRight_loc :: "('k, 'd) Node \<Rightarrow> location \<Rightarrow> location" where
  "RotateRight_loc (Node e (Node pe pl pr pf) r f) loc =
     (if \<not> IsRed pf then loc
      else (case loc of
              [] \<Rightarrow> [GoRight]
            | GoRight # q \<Rightarrow> GoRight # GoRight # q
            | [GoLeft] \<Rightarrow> []
            | GoLeft # GoRight # q \<Rightarrow> GoRight # GoLeft # q
            | GoLeft # GoLeft # q \<Rightarrow> GoLeft # q))"
| "RotateRight_loc n loc = loc"

definition Repair_loc :: "('k, 'd) Node \<Rightarrow> location \<Rightarrow> location" where
  "Repair_loc n loc =
     (let c1 = (RightChildIsRed n \<and> \<not> LeftChildIsRed n);
          n1 = (if c1 then fst (RotateLeft n) else n);
          loc1 = (if c1 then RotateLeft_loc n loc else loc)
      in if LeftChildIsRed n1 \<and> LeftChildIsRed (lchild n1)
         then RotateRight_loc n1 loc1 else loc1)"

text \<open>\<open>d0\<close> is \<open>D()\<close>, the default-constructed value of the data type.\<close>

fun RGet :: "'d \<Rightarrow> ('k::linorder, 'd) Node \<Rightarrow> 'k \<Rightarrow> ('k, 'd) Node \<times> location" where
  "RGet d0 Null kval = (NewNode kval d0 DEFAULT, [])"
| "RGet d0 (Node e l r f) kval =
     (let (n, loc) =
            (if kval < key e then
               (let (l', q) = RGet d0 l kval in (Node e l' r f, GoLeft # q))
             else if key e < kval then
               (let (r', q) = RGet d0 r kval in (Node e l r' f, GoRight # q))
             else (Node e l r (SetAlive f), []))
      in (Repair n, Repair_loc n loc))"

text \<open>Writing through a pointer: the data of the node at a path is overwritten.\<close>

fun assign_data :: "('k, 'd) Node \<Rightarrow> location \<Rightarrow> 'd \<Rightarrow> ('k, 'd) Node" where
  "assign_data Null loc d = Null"
| "assign_data (Node e l r f) [] d = Node (Entry (key e) d) l r f"
| "assign_data (Node e l r f) (GoLeft # q) d = Node e (assign_data l q d) r f"
| "assign_data (Node e l r f) (GoRight # q) d = Node e l (assign_data r q d) f"

fun entry_at :: "('k, 'd) Node \<Rightarrow> location \<Rightarrow> ('k, 'd) Entry option" where
  "entry_at Null loc = None"
| "entry_at (Node e l r f) [] = Some e"
| "entry_at (Node e l r f) (GoLeft # q) = entry_at l q"
| "entry_at (Node e l r f) (GoRight # q) = entry_at r q"

section \<open>Recursive statistics, release and clone\<close>

text \<open>\<open>size_t\<close> counts are natural numbers: a count of allocated nodes cannot wrap.\<close>

fun RSize :: "('k, 'd) Node \<Rightarrow> nat" where
  "RSize Null = 0"
| "RSize (Node e l r f) = (if IsAlive f then 1 else 0) + RSize l + RSize r"

fun RNumNodes :: "('k, 'd) Node \<Rightarrow> nat" where
  "RNumNodes Null = 0"
| "RNumNodes (Node e l r f) = 1 + RNumNodes l + RNumNodes r"

fun RHeight :: "('k, 'd) Node \<Rightarrow> int" where
  "RHeight Null = - 1"
| "RHeight (Node e l r f) =
     (let lh = RHeight l; rh = RHeight r in if lh < rh then 1 + rh else 1 + lh)"

text \<open>
  \<open>RRelease\<close> deletes all descendants of a node: it returns the node, now without children,
  and the number of nodes it deleted.
\<close>

fun RRelease :: "('k, 'd) Node \<Rightarrow> ('k, 'd) Node \<times> nat" where
  "RRelease Null = (Null, 0)"
| "RRelease (Node e l r f) =
     (let dl = (if l \<noteq> Null then snd (RRelease l) + 1 else 0);
          dr = (if r \<noteq> Null then snd (RRelease r) + 1 else 0)
      in (Node e Null Null f, dl + dr))"

fun RClone :: "('k, 'd) Node \<Rightarrow> ('k, 'd) Node" where
  "RClone Null = Null"
| "RClone (Node e l r f) =
     (let newN = NewNode (key e) (data e) DEFAULT
      in Node (val newN) (RClone l) (RClone r) f)"

section \<open>The map\<close>

record ('k, 'd) Map_ADT =
  root :: "('k, 'd) Node"

definition Map_ADT_new :: "('k, 'd) Map_ADT" where
  "Map_ADT_new = \<lparr>root = Null\<rparr>"

definition Empty :: "('k, 'd) Map_ADT \<Rightarrow> bool" where
  "Empty m = (root m = Null)"

definition Size :: "('k, 'd) Map_ADT \<Rightarrow> nat" where
  "Size m = RSize (root m)"

definition NumNodes :: "('k, 'd) Map_ADT \<Rightarrow> nat" where
  "NumNodes m = RNumNodes (root m)"

definition Height :: "('k, 'd) Map_ADT \<Rightarrow> int" where
  "Height m = RHeight (root m)"

text \<open>\<open>n->SetBlack()\<close> on a node pointer; \<open>RGet\<close> and \<open>RInsert\<close> never return null.\<close>

fun NSetBlack :: "('k, 'd) Node \<Rightarrow> ('k, 'd) Node" where
  "NSetBlack Null = Null"
| "NSetBlack (Node e l r f) = Node e l r (SetBlack f)"

text \<open>
  \<open>Get\<close> returns a reference to the data slot of the node: the map after the call and the
  location of the node below the new root. \<open>Put\<close> assigns through that reference.
\<close>

definition Get :: "'d \<Rightarrow> 'k::linorder \<Rightarrow> ('k, 'd) Map_ADT \<Rightarrow> ('k, 'd) Map_ADT \<times> location" where
  "Get d0 k m = (let (r, location) = RGet d0 (root m) k in (m\<lparr>root := NSetBlack r\<rparr>, location))"

definition Put :: "'d \<Rightarrow> 'k::linorder \<Rightarrow> 'd \<Rightarrow> ('k, 'd) Map_ADT \<Rightarrow> ('k, 'd) Map_ADT" where
  "Put d0 k d m = (let (m', location) = Get d0 k m in m'\<lparr>root := assign_data (root m') location d\<rparr>)"

definition Insert :: "'d \<Rightarrow> 'k::linorder \<Rightarrow> 'd \<Rightarrow> ('k, 'd) Map_ADT \<Rightarrow> ('k, 'd) Map_ADT" where
  "Insert d0 k d m = Put d0 k d m"

text \<open>\<open>Erase\<close>: the descent of the loop, with the flag of the node found set in place.\<close>

fun Erase_node :: "('k::linorder, 'd) Node \<Rightarrow> 'k \<Rightarrow> ('k, 'd) Node" where
  "Erase_node Null k = Null"
| "Erase_node (Node e l r f) k =
     (if k < key e then Node e (Erase_node l k) r f
      else if key e < k then Node e l (Erase_node r k) f
      else Node e l r (SetDead f))"

definition Erase :: "'k::linorder \<Rightarrow> ('k, 'd) Map_ADT \<Rightarrow> ('k, 'd) Map_ADT" where
  "Erase k m = m\<lparr>root := Erase_node (root m) k\<rparr>"

text \<open>\<open>Clear\<close> returns the emptied map and the number of nodes it deleted
  (\<open>delete\<close> of a null root deletes nothing).\<close>

definition Clear :: "('k, 'd) Map_ADT \<Rightarrow> ('k, 'd) Map_ADT \<times> nat" where
  "Clear m =
     (let (n, c) = RRelease (root m);
          c = (if n \<noteq> Null then c + 1 else c)
      in (m\<lparr>root := Null\<rparr>, c))"

section \<open>In-order iterators\<close>

text \<open>
  Modelled from the spec: \<open>mapiter_adt.h\<close>, with the classes \<open>ConstInorderMapIterator\<close> and
  \<open>InorderMapIterator\<close> (\<open>Init\<close>, \<open>operator++\<close>, \<open>operator*\<close> and the comparison of
  iterators), is not among the sources. Section 4.D of the specification describes the
  forward in-order iterator: it carries an explicit stack of node pointers; \<open>end\<close> is any
  iterator whose stack is empty; initialization from a root pushes the leftmost chain from
  the root; advancement pops the top node and, if it has a right child, pushes that child
  and then its leftmost chain; tombstones are skipped, advancing until a live node is on
  top or the stack is empty. The iterator yields live entries only (sections 4.B and 8:
  iteration is in key order over alive entries only and visits exactly \<open>size()\<close> entries),
  so initialization skips tombstones as advancement does. Dereferencing yields the entry
  of the top node; an iterator differs from \<open>end\<close> exactly when its stack is not empty.

  The stack is a list, top first. No null pointer is ever pushed.
\<close>

type_synonym ('k, 'd) Iterator = "('k, 'd) Node list"

definition End :: "('k, 'd) Iterator" where
  "End = []"

fun push_left :: "('k, 'd) Node \<Rightarrow> ('k, 'd) Iterator \<Rightarrow> ('k, 'd) Iterator" where
  "push_left Null stk = stk"
| "push_left (Node e l r f) stk = push_left l (Node e l r f # stk)"

fun Advance :: "('k, 'd) Iterator \<Rightarrow> ('k, 'd) Iterator" where
  "Advance [] = []"
| "Advance (Null # stk) = stk"
| "Advance (Node e l r f # stk) = push_left r stk"

fun node_weight :: "('k, 'd) Node \<Rightarrow> nat" where
  "node_weight Null = 1"
| "node_weight (Node e l r f) = 1 + RNumNodes r"

definition stack_weight :: "('k, 'd) Iterator \<Rightarrow> nat" where
  "stack_weight stk = sum_list (map node_weight stk)"

lemma stack_weight_push_left:
  "stack_weight (push_left n stk) = RNumNodes n + stack_weight stk"
  by (induction n arbitrary: stk) (simp_all add: stack_weight_def)

lemma stack_weight_Advance:
  "stk \<noteq> [] \<Longrightarrow> stack_weight (Advance stk) < stack_weight stk"
  by (cases stk rule: Advance.cases) (simp_all add: stack_weight_push_left, simp_all add: stack_weight_def)

function SkipDead :: "('k, 'd) Iterator \<Rightarrow> ('k, 'd) Iterator" where
  "SkipDead [] = []"
| "SkipDead (Null # stk) = Null # stk"
| "SkipDead (Node e l r f # stk) =
     (if IsDead f then SkipDead (Advance (Node e l r f # stk)) else Node e l r f # stk)"
  by pat_completeness auto
termination
  by (relation "measure stack_weight") (simp_all add: stack_weight_Advance del: Advance.simps)

definition Init :: "('k, 'd) Node \<Rightarrow> ('k, 'd) Iterator" where
  "Init n = SkipDead (push_left n [])"

definition Increment :: "('k, 'd) Iterator \<Rightarrow> ('k, 'd) Iterator" where
  "Increment i = SkipDead (Advance i)"

definition Begin :: "('k, 'd) Map_ADT \<Rightarrow> ('k, 'd) Iterator" where
  "Begin m = Init (root m)"

lemma stack_weight_SkipDead: "stack_weight (SkipDead stk) \<le> stack_weight stk"
proof (induction stk rule: SkipDead.induct)
  case (3 e l r f stk)
  then show ?case
    using stack_weight_Advance [of "Node e l r f # stk"] by (auto simp del: Advance.simps)
qed simp_all

lemma stack_weight_Increment:
  "stk \<noteq> [] \<Longrightarrow> stack_weight (Increment stk) < stack_weight stk"
  unfolding Increment_def
  using stack_weight_SkipDead [of "Advance stk"] stack_weight_Advance [of stk] by simp

section \<open>Lookup, equality, rehash, copy and assignment\<close>

text \<open>
  \<open>Includes\<close> (both overloads have the same body) returns an iterator whose stack holds
  the search path, the node found on top, or \<open>End()\<close>.
\<close>

fun Includes_loop ::
  "('k::linorder, 'd) Node \<Rightarrow> 'k \<Rightarrow> ('k, 'd) Iterator \<Rightarrow> ('k, 'd) Iterator" where
  "Includes_loop Null k stk = End"
| "Includes_loop (Node e l r f) k stk =
     (if k < key e then Includes_loop l k (Node e l r f # stk)
      else if key e < k then Includes_loop r k (Node e l r f # stk)
      else if IsAlive f then Node e l r f # stk
      else End)"

definition Includes :: "('k::linorder, 'd) Map_ADT \<Rightarrow> 'k \<Rightarrow> ('k, 'd) Iterator" where
  "Includes m k = Includes_loop (root m) k []"

text \<open>\<open>Retrieve\<close> returns its boolean and the contents of the out slot \<open>d\<close> afterwards.\<close>

definition Retrieve :: "('k::linorder, 'd) Map_ADT \<Rightarrow> 'k \<Rightarrow> 'd \<Rightarrow> bool \<times> 'd" where
  "Retrieve m k d =
     (case Includes m k of
        [] \<Rightarrow> (False, d)
      | Null # stk \<Rightarrow> (False, d)
      | Node e l r f # stk \<Rightarrow> (True, data e))"

text \<open>\<open>operator==\<close>: the loop over the two iterators, then the test that both are at the end.\<close>

function (sequential) equal_loop :: "('k, 'd) Iterator \<Rightarrow> ('k, 'd) Iterator \<Rightarrow> bool" where
  "equal_loop (Node e1 l1 r1 f1 # s1) (Node e2 l2 r2 f2 # s2) =
     (if key e1 \<noteq> key e2 \<or> data e1 \<noteq> data e2 then False
      else equal_loop (Increment (Node e1 l1 r1 f1 # s1)) (Increment (Node e2 l2 r2 f2 # s2)))"
| "equal_loop [] [] = True"
| "equal_loop i j = False"
  by pat_completeness auto
termination
  by (relation "measure (\<lambda>(i, j). stack_weight i)") (simp_all add: stack_weight_Increment)

definition operator_eq :: "('k, 'd) Map_ADT \<Rightarrow> ('k, 'd) Map_ADT \<Rightarrow> bool" where
  "operator_eq m1 m2 = equal_loop (Begin m1) (Begin m2)"

definition operator_neq :: "('k, 'd) Map_ADT \<Rightarrow> ('k, 'd) Map_ADT \<Rightarrow> bool" where
  "operator_neq m1 m2 = (\<not> operator_eq m1 m2)"

text \<open>
  \<open>Rehash\<close>: the loop over the live entries, then \<open>Clear\<close> on the old tree, then the new
  root. \<open>Rehash_io\<close> returns the map afterwards and the number of nodes its \<open>Clear\<close>
  deleted; \<open>Rehash\<close> is the map alone.
\<close>

function (sequential) Rehash_loop ::
  "('k::linorder, 'd) Node \<Rightarrow> ('k, 'd) Iterator \<Rightarrow> ('k, 'd) Node" where
  "Rehash_loop newRoot (Node e l r f # stk) =
     Rehash_loop (NSetBlack (RInsert newRoot (key e) (data e))) (Increment (Node e l r f # stk))"
| "Rehash_loop newRoot i = newRoot"
  by pat_completeness auto
termination
  by (relation "measure (\<lambda>(n, i). stack_weight i)") (simp_all add: stack_weight_Increment)

definition Rehash_io :: "('k::linorder, 'd) Map_ADT \<Rightarrow> ('k, 'd) Map_ADT \<times> nat" where
  "Rehash_io m =
     (let newRoot = Rehash_loop Null (Begin m);
          (cleared, deleted) = Clear m
      in (cleared\<lparr>root := newRoot\<rparr>, deleted))"

definition Rehash :: "('k::linorder, 'd) Map_ADT \<Rightarrow> ('k, 'd) Map_ADT" where
  "Rehash m = fst (Rehash_io m)"

text \<open>The copy constructor builds a map around the clone of the other root.\<close>

definition Map_ADT_copy :: "('k, 'd) Map_ADT \<Rightarrow> ('k, 'd) Map_ADT" where
  "Map_ADT_copy tree = \<lparr>root = RClone (root tree)\<rparr>"

text \<open>
  \<open>operator=\<close> compares the addresses of the two maps, so the maps live in a store, a
  function from addresses to maps; \<open>this\<close> and \<open>that\<close> are addresses. It returns the store
  afterwards, the address \<open>this\<close> (the reference \<open>*this\<close>), the number of nodes deleted and
  the number of nodes allocated.
\<close>

definition assign_from :: "('k, 'd) Map_ADT \<Rightarrow> ('k, 'd) Map_ADT \<Rightarrow> ('k, 'd) Map_ADT" where
  "assign_from m that_m = (fst (Clear m))\<lparr>root := RClone (root that_m)\<rparr>"

definition operator_assign ::
  "nat \<Rightarrow> nat \<Rightarrow> (nat \<Rightarrow> ('k, 'd) Map_ADT) \<Rightarrow> (nat \<Rightarrow> ('k, 'd) Map_ADT) \<times> nat \<times> nat \<times> nat" where
  "operator_assign this that st =
     (if this \<noteq> that
      then (st(this := assign_from (st this) (st that)), this,
            snd (Clear (st this)), RNumNodes (root (st that)))
      else (st, this, 0, 0))"

section \<open>Abstraction and invariants\<close>

text \<open>The in-order sequence of a tree: key, data and liveness of every node; the live
  in-order sequence keeps the (key, data) pairs of the nodes that are alive.\<close>

fun inorder :: "('k, 'd) Node \<Rightarrow> ('k \<times> 'd \<times> bool) list" where
  "inorder Null = []"
| "inorder (Node e l r f) = inorder l @ (key e, data e, IsAlive f) # inorder r"

abbreviation keys_sorted :: "('k::linorder \<times> 'd \<times> bool) list \<Rightarrow> bool" where
  "keys_sorted xs \<equiv> sorted_wrt (<) (map fst xs)"

definition live_inorder :: "('k, 'd) Node \<Rightarrow> ('k \<times> 'd) list" where
  "live_inorder t = map (\<lambda>(k, d, a). (k, d)) (filter (\<lambda>(k, d, a). a) (inorder t))"

text \<open>
  The structural invariants of section 3 of the specification: BST order, left-leaning
  red links, no two consecutive red left children, the same number of black nodes on every
  path from the root to a null link, and a black root.
\<close>

fun bst_order :: "('k::linorder, 'd) Node \<Rightarrow> bool" where
  "bst_order Null = True"
| "bst_order (Node e l r f) =
     ((\<forall>x \<in> set (map fst (inorder l)). x < key e) \<and> (\<forall>x \<in> set (map fst (inorder r)). key e < x)
      \<and> bst_order l \<and> bst_order r)"

fun left_leaning :: "('k, 'd) Node \<Rightarrow> bool" where
  "left_leaning Null = True"
| "left_leaning (Node e l r f) =
     (\<not> (RightChildIsRed (Node e l r f) \<and> \<not> LeftChildIsRed (Node e l r f))
      \<and> left_leaning l \<and> left_leaning r)"

fun no_red_red_left :: "('k, 'd) Node \<Rightarrow> bool" where
  "no_red_red_left Null = True"
| "no_red_red_left (Node e l r f) =
     (\<not> (LeftChildIsRed (Node e l r f) \<and> LeftChildIsRed l)
      \<and> no_red_red_left l \<and> no_red_red_left r)"

fun black_counts :: "('k, 'd) Node \<Rightarrow> nat list" where
  "black_counts Null = [0]"
| "black_counts (Node e l r f) =
     map (\<lambda>c. c + (if IsBlack f then 1 else 0)) (black_counts l @ black_counts r)"

definition black_balanced :: "('k, 'd) Node \<Rightarrow> bool" where
  "black_balanced t = (\<forall>a \<in> set (black_counts t). \<forall>b \<in> set (black_counts t). a = b)"

fun root_black :: "('k, 'd) Node \<Rightarrow> bool" where
  "root_black Null = True"
| "root_black (Node e l r f) = IsBlack f"

definition invariants :: "('k::linorder, 'd) Node \<Rightarrow> bool" where
  "invariants t = (bst_order t \<and> left_leaning t \<and> no_red_red_left t \<and> black_balanced t \<and> root_black t)"

text \<open>
  The map states reachable by public operations: a new map, then \<open>Get\<close> (and
  \<open>operator[]\<close>, which is \<open>Get\<close>), \<open>Put\<close>, \<open>Insert\<close>, \<open>Erase\<close>, \<open>Clear\<close>, \<open>Rehash\<close>, the copy
  constructor and assignment from another reachable map.
\<close>

inductive reachable :: "'d \<Rightarrow> ('k::linorder, 'd) Map_ADT \<Rightarrow> bool" for d0 :: 'd where
  r_new: "reachable d0 Map_ADT_new"
| r_Get: "reachable d0 m \<Longrightarrow> reachable d0 (fst (Get d0 k m))"
| r_Put: "reachable d0 m \<Longrightarrow> reachable d0 (Put d0 k d m)"
| r_Insert: "reachable d0 m \<Longrightarrow> reachable d0 (Insert d0 k d m)"
| r_Erase: "reachable d0 m \<Longrightarrow> reachable d0 (Erase k m)"
| r_Clear: "reachable d0 m \<Longrightarrow> reachable d0 (fst (Clear m))"
| r_Rehash: "reachable d0 m \<Longrightarrow> reachable d0 (Rehash m)"
| r_copy: "reachable d0 m \<Longrightarrow> reachable d0 (Map_ADT_copy m)"
| r_assign: "reachable d0 (st this) \<Longrightarrow> reachable d0 (st that) \<Longrightarrow>
             reachable d0 (fst (operator_assign this that st) this)"

text \<open>
  The invariant the engine maintains is stronger: no right child is red and no red node
  has a red left child; \<open>invc2\<close> is what a subtree satisfies right after an insertion
  below a red node. \<open>upd\<close> is the recursion \<open>RInsert\<close> and \<open>RGet\<close> share, with the
  data written into a new or a found node left open.
\<close>

fun IsRedN :: "('k, 'd) Node \<Rightarrow> bool" where
  "IsRedN Null = False"
| "IsRedN (Node e l r f) = IsRed f"

fun bheight :: "('k, 'd) Node \<Rightarrow> nat" where
  "bheight Null = 0"
| "bheight (Node e l r f) = bheight l + (if IsRed f then 0 else 1)"

fun invh :: "('k, 'd) Node \<Rightarrow> bool" where
  "invh Null = True"
| "invh (Node e l r f) = (bheight l = bheight r \<and> invh l \<and> invh r)"

fun invc :: "('k, 'd) Node \<Rightarrow> bool" where
  "invc Null = True"
| "invc (Node e l r f) = (\<not> IsRedN r \<and> (IsRed f \<longrightarrow> \<not> IsRedN l) \<and> invc l \<and> invc r)"

fun invc2 :: "('k, 'd) Node \<Rightarrow> bool" where
  "invc2 Null = True"
| "invc2 (Node e l r f) = (\<not> IsRedN r \<and> invc l \<and> invc r)"

definition llrb :: "('k::linorder, 'd) Node \<Rightarrow> bool" where
  "llrb t = (keys_sorted (inorder t) \<and> invc t \<and> invh t \<and> \<not> IsRedN t)"

fun upd :: "('d option \<Rightarrow> 'd) \<Rightarrow> ('k::linorder, 'd) Node \<Rightarrow> 'k \<Rightarrow> ('k, 'd) Node" where
  "upd g Null k = NewNode k (g None) DEFAULT"
| "upd g (Node e l r f) k =
     Repair (if k < key e then Node e (upd g l k) r f
             else if key e < k then Node e l (upd g r k) f
             else Node (Entry (key e) (g (Some (data e)))) l r (SetAlive f))"

fun upd_list :: "('d option \<Rightarrow> 'd) \<Rightarrow> 'k::linorder \<Rightarrow> ('k \<times> 'd \<times> bool) list \<Rightarrow> ('k \<times> 'd \<times> bool) list" where
  "upd_list g k [] = [(k, g None, True)]"
| "upd_list g k ((a, d, al) # xs) =
     (if k < a then (k, g None, True) # (a, d, al) # xs
      else if a < k then (a, d, al) # upd_list g k xs
      else (a, g (Some d), True) # xs)"

text \<open>
  What an iterator still has to yield: for every node on its stack, the entry of the node
  if it is alive, then the live entries of its right subtree. An iterator is \<open>ready\<close> when
  its stack is empty or has a live node on top.
\<close>

fun node_live :: "('k, 'd) Node \<Rightarrow> ('k \<times> 'd) list" where
  "node_live Null = []"
| "node_live (Node e l r f) = (if IsAlive f then [(key e, data e)] else []) @ live_inorder r"

definition stack_live :: "('k, 'd) Iterator \<Rightarrow> ('k \<times> 'd) list" where
  "stack_live stk = concat (map node_live stk)"

fun ready :: "('k, 'd) Iterator \<Rightarrow> bool" where
  "ready [] = True"
| "ready (Null # stk) = False"
| "ready (Node e l r f # stk) = (IsAlive f \<and> Null \<notin> set stk)"

definition rehash_step :: "('k::linorder, 'd) Node \<Rightarrow> 'k \<times> 'd \<Rightarrow> ('k, 'd) Node" where
  "rehash_step t = (\<lambda>(k, v). NSetBlack (RInsert t k v))"

text \<open>
  The specification's description of \<open>put\<close>: \<open>rinsert\<close> at the root, then the root is
  set to black.
\<close>

definition Put_spec :: "'k::linorder \<Rightarrow> 'd \<Rightarrow> ('k, 'd) Map_ADT \<Rightarrow> ('k, 'd) Map_ADT" where
  "Put_spec k d m = m\<lparr>root := NSetBlack (RInsert (root m) k d)\<rparr>"

section \<open>Flag bits\<close>

lemma IsRed_bit: "IsRed f = bit f (Suc 0)"
  unfolding IsRed_def RED_def
  using and_exp_eq_0_iff_not_bit [of f 1] by (auto simp: and.commute)

lemma IsDead_bit: "IsDead f = bit f 0"
  unfolding IsDead_def DEAD_def
  using and_exp_eq_0_iff_not_bit [of f 0] by (auto simp: and.commute)

lemma flag_simps [simp]:
  "IsRed (SetRed f)" "\<not> IsRed (SetBlack f)"
  "IsRed (SetAlive f) = IsRed f" "IsRed (SetDead f) = IsRed f"
  "IsDead (SetRed f) = IsDead f" "IsDead (SetBlack f) = IsDead f"
  "IsDead (SetDead f)" "\<not> IsDead (SetAlive f)"
  "IsRed DEFAULT" "\<not> IsDead DEFAULT"
  by (auto simp: IsRed_bit IsDead_bit SetRed_def SetBlack_def SetAlive_def SetDead_def
      DEFAULT_def RED_def DEAD_def bit_simps)

lemma SetAlive_SetDead [simp]: "SetAlive (SetDead f) = SetAlive f"
  by (rule bit_word_eqI) (auto simp: SetAlive_def SetDead_def DEAD_def bit_simps)

lemma SetAlive_id: "\<not> IsDead f \<Longrightarrow> SetAlive f = f"
proof (rule bit_word_eqI)
  fix n assume "\<not> IsDead f" "n < LENGTH(8)"
  then show "bit (SetAlive f) n = bit f n"
    by (cases "n = 0") (auto simp: IsDead_bit SetAlive_def DEAD_def bit_simps)
qed

lemma SetBlack_id: "\<not> IsRed f \<Longrightarrow> SetBlack f = f"
  by (rule bit_word_eqI) (auto simp: IsRed_bit SetBlack_def RED_def bit_simps)

lemma SetRed_id: "IsRed f \<Longrightarrow> SetRed f = f"
  by (rule bit_word_eqI) (auto simp: IsRed_bit SetRed_def RED_def bit_simps)

lemma IsAlive_simps [simp]: "IsAlive f = (\<not> IsDead f)" "IsBlack f = (\<not> IsRed f)"
  by (simp_all add: IsAlive_def IsBlack_def)

section \<open>In-order contents and the repair steps\<close>

lemma RInsert_upd: "RInsert t k d = upd (\<lambda>_. d) t k"
  by (induction t) simp_all

lemma RGet_upd: "fst (RGet d0 t k) = upd (case_option d0 id) t k"
  by (induction t) (simp_all add: split_beta Let_def)

lemma RotateLeft_silent: "RightChildIsRed n \<Longrightarrow> snd (RotateLeft n) = []"
  by (cases n rule: RotateLeft.cases) simp_all

lemma RotateRight_silent: "LeftChildIsRed n \<Longrightarrow> snd (RotateRight n) = []"
  by (cases n rule: RotateRight.cases) simp_all

lemma inorder_RotateLeft [simp]: "inorder (fst (RotateLeft n)) = inorder n"
  by (cases n rule: RotateLeft.cases) simp_all

lemma inorder_RotateRight [simp]: "inorder (fst (RotateRight n)) = inorder n"
  by (cases n rule: RotateRight.cases) simp_all

lemma inorder_ColorFlip [simp]: "inorder (ColorFlip n) = inorder n"
  by (cases n rule: ColorFlip.cases) simp_all

lemma inorder_Repair [simp]: "inorder (Repair n) = inorder n"
  by (simp add: Repair_def Let_def)

lemma inorder_NSetBlack [simp]: "inorder (NSetBlack n) = inorder n"
  by (cases n) simp_all

lemma upd_list_lt:
  "keys_sorted (xs @ (a, d, al) # ys) \<Longrightarrow> k < a \<Longrightarrow>
   upd_list g k (xs @ (a, d, al) # ys) = upd_list g k xs @ (a, d, al) # ys"
  by (induction xs) (auto simp: sorted_wrt_append)

lemma upd_list_gt:
  "keys_sorted (xs @ (a, d, al) # ys) \<Longrightarrow> a < k \<Longrightarrow>
   upd_list g k (xs @ (a, d, al) # ys) = xs @ (a, d, al) # upd_list g k ys"
  by (induction xs) (auto simp: sorted_wrt_append)

lemma upd_list_eq:
  "keys_sorted (xs @ (a, d, al) # ys) \<Longrightarrow>
   upd_list g a (xs @ (a, d, al) # ys) = xs @ (a, g (Some d), True) # ys"
  by (induction xs) (auto simp: sorted_wrt_append)

lemma inorder_upd:
  "keys_sorted (inorder t) \<Longrightarrow> inorder (upd g t k) = upd_list g k (inorder t)"
proof (induction t)
  case Null
  show ?case by (simp add: NewNode_def)
next
  case (Node e l r f)
  from Node.prems have sl: "keys_sorted (inorder l)" and sr: "keys_sorted (inorder r)"
    by (simp_all add: sorted_wrt_append)
  show ?case
  proof (cases "k < key e")
    case True
    then show ?thesis using Node.prems Node.IH(1) [OF sl] by (simp add: upd_list_lt)
  next
    case False
    show ?thesis
    proof (cases "key e < k")
      case True
      then show ?thesis using Node.prems Node.IH(2) [OF sr] \<open>\<not> k < key e\<close> by (simp add: upd_list_gt)
    next
      case False
      with \<open>\<not> k < key e\<close> have "k = key e" by simp
      then show ?thesis using Node.prems upd_list_eq [of "inorder l" "key e" "data e" "IsAlive f" "inorder r" g] by simp
    qed
  qed
qed

lemma set_upd_list: "set (map fst (upd_list g k xs)) = insert k (set (map fst xs))"
  by (induction g k xs rule: upd_list.induct) auto

lemma keys_sorted_upd_list: "keys_sorted xs \<Longrightarrow> keys_sorted (upd_list g k xs)"
proof (induction g k xs rule: upd_list.induct)
  case 1 show ?case by simp
next
  case (2 g k a d al xs)
  show ?case using 2 set_upd_list [of g k xs] by auto
qed

lemma length_upd_list:
  "keys_sorted xs \<Longrightarrow> length (upd_list g k xs) = (if k \<in> set (map fst xs) then length xs else Suc (length xs))"
  by (induction g k xs rule: upd_list.induct) auto

section \<open>Colour and height invariants\<close>

lemma invc_invc2: "invc n \<Longrightarrow> invc2 n"
  by (cases n) simp_all

lemma RightChildIsRed_simp [simp]: "RightChildIsRed (Node e l r f) = IsRedN r"
  by (cases r) simp_all

lemma LeftChildIsRed_simp [simp]: "LeftChildIsRed (Node e l r f) = IsRedN l"
  by (cases l) simp_all

lemma LeftChildIsRed_invc: "invc n \<Longrightarrow> IsRedN n \<Longrightarrow> \<not> LeftChildIsRed n"
  by (cases n) auto

lemma ColorFlip_red:
  "IsRedN l \<Longrightarrow> IsRedN r \<Longrightarrow> ColorFlip (Node e l r f) = Node e (NSetBlack l) (NSetBlack r) (SetRed f)"
  by (cases l; cases r) simp_all

lemma IsRedN_NSetBlack [simp]: "\<not> IsRedN (NSetBlack n)"
  by (cases n) simp_all

lemma bheight_NSetBlack: "bheight (NSetBlack n) = (if IsRedN n then bheight n + 1 else bheight n)"
  by (cases n) simp_all

lemma invh_NSetBlack [simp]: "invh (NSetBlack n) = invh n"
  by (cases n) simp_all

lemma invc_NSetBlack: "invc2 n \<Longrightarrow> invc (NSetBlack n)"
  by (cases n) simp_all

lemma Repair_invc_id: "invc n \<Longrightarrow> Repair n = n"
  by (cases n) (auto simp: Repair_def Let_def LeftChildIsRed_invc)

lemma Repair_left:
  assumes "invc2 l" "invh l" "invc r" "invh r" "\<not> IsRedN r" "bheight l = bheight r"
    "IsRed f \<longrightarrow> invc l"
  shows "invh (Repair (Node e l r f)) \<and> bheight (Repair (Node e l r f)) = bheight (Node e l r f)
     \<and> invc2 (Repair (Node e l r f)) \<and> (\<not> IsRed f \<longrightarrow> invc (Repair (Node e l r f)))"
proof (cases "IsRedN l \<and> LeftChildIsRed l")
  case False
  then show ?thesis using assms
    by (cases l) (auto simp: Repair_def Let_def)
next
  case True
  then obtain le ll lr lf where l: "l = Node le ll lr lf" by (cases l) auto
  with True have red: "IsRed lf" "IsRedN ll" by auto
  with assms l have nf: "\<not> IsRed f" by (auto)
  show ?thesis using assms red nf unfolding l
    by (auto simp: Repair_def Let_def ColorFlip_red bheight_NSetBlack invc_NSetBlack invc_invc2)
qed

lemma Repair_right:
  assumes "invc l" "invh l" "invc r" "invh r" "bheight l = bheight r"
    "IsRed f \<longrightarrow> \<not> IsRedN l"
  shows "invh (Repair (Node e l r f)) \<and> bheight (Repair (Node e l r f)) = bheight (Node e l r f)
     \<and> invc2 (Repair (Node e l r f)) \<and> (\<not> IsRed f \<longrightarrow> invc (Repair (Node e l r f)))"
proof (cases "IsRedN r")
  case False
  then have "invc (Node e l r f)" using assms by simp
  from Repair_invc_id [OF this] show ?thesis using assms False by simp
next
  case True
  then obtain re rl rr rf where r: "r = Node re rl rr rf" by (cases r) auto
  show ?thesis
  proof (cases "IsRedN l")
    case False
    then show ?thesis using assms True unfolding r
      by (auto simp: Repair_def Let_def)
  next
    case lred: True
    then show ?thesis using assms True
      by (auto simp: Repair_def Let_def ColorFlip_red bheight_NSetBlack invc_NSetBlack invc_invc2 LeftChildIsRed_invc)
  qed
qed

lemma upd_inv:
  "invc t \<Longrightarrow> invh t \<Longrightarrow>
   invh (upd g t k) \<and> bheight (upd g t k) = bheight t \<and> invc2 (upd g t k)
   \<and> (\<not> IsRedN t \<longrightarrow> invc (upd g t k))"
proof (induction t)
  case Null
  show ?case by (simp add: NewNode_def)
next
  case (Node e l r f)
  from Node.prems have cl: "invc l" and cr: "invc r" and hl: "invh l" and hr: "invh r"
    and bh: "bheight l = bheight r" and nr: "\<not> IsRedN r" and fl: "IsRed f \<longrightarrow> \<not> IsRedN l"
    by simp_all
  show ?case
  proof (cases "k < key e")
    case True
    from Node.IH(1) [OF cl hl] fl bh
    have "invc2 (upd g l k)" "invh (upd g l k)" "bheight (upd g l k) = bheight r"
      "IsRed f \<longrightarrow> invc (upd g l k)" by auto
    from Repair_left [OF this(1,2) cr hr nr this(3,4), of e] True bh
    show ?thesis using Node.IH(1) [OF cl hl] by simp
  next
    case False
    show ?thesis
    proof (cases "key e < k")
      case True
      from Node.IH(2) [OF cr hr] nr bh
      have "invc (upd g r k)" "invh (upd g r k)" "bheight l = bheight (upd g r k)" by auto
      from Repair_right [OF cl hl this(1,2,3) fl, of e] True False
      show ?thesis by simp
    next
      case nlt: False
      have "invc (Node (Entry (key e) (g (Some (data e)))) l r (SetAlive f))"
        using Node.prems by simp
      from Repair_invc_id [OF this] show ?thesis using False nlt Node.prems by simp
    qed
  qed
qed

section \<open>Assigning through the location commutes with the repair steps\<close>

lemma IsRedN_assign_data [simp]: "IsRedN (assign_data n loc d) = IsRedN n"
  by (cases "(n, loc, d)" rule: assign_data.cases) simp_all

lemma assign_data_Null [simp]: "(assign_data n loc d = Null) = (n = Null)"
  by (cases "(n, loc, d)" rule: assign_data.cases) simp_all

lemma assign_data_Node_cases:
  "assign_data (Node e l r f) loc d =
     (case loc of [] \<Rightarrow> Node (Entry (key e) d) l r f
      | GoLeft # q \<Rightarrow> Node e (assign_data l q d) r f
      | GoRight # q \<Rightarrow> Node e l (assign_data r q d) f)"
  by (simp split: list.splits turn.splits)

lemma RightChildIsRed_assign_data [simp]:
  "RightChildIsRed (assign_data n loc d) = RightChildIsRed n"
  by (cases "(n, loc, d)" rule: assign_data.cases) simp_all

lemma LeftChildIsRed_assign_data [simp]:
  "LeftChildIsRed (assign_data n loc d) = LeftChildIsRed n"
  by (cases "(n, loc, d)" rule: assign_data.cases) simp_all

lemma RotateLeft_id: "\<not> RightChildIsRed n \<Longrightarrow> fst (RotateLeft n) = n"
  by (cases n rule: RotateLeft.cases) simp_all

lemma RotateRight_id: "\<not> LeftChildIsRed n \<Longrightarrow> fst (RotateRight n) = n"
  by (cases n rule: RotateRight.cases) simp_all

lemma RotateLeft_loc_id: "\<not> RightChildIsRed n \<Longrightarrow> RotateLeft_loc n loc = loc"
  by (cases "(n, loc)" rule: RotateLeft_loc.cases) simp_all

lemma RotateRight_loc_id: "\<not> LeftChildIsRed n \<Longrightarrow> RotateRight_loc n loc = loc"
  by (cases "(n, loc)" rule: RotateRight_loc.cases) simp_all

lemma assign_data_RotateLeft:
  "assign_data (fst (RotateLeft n)) (RotateLeft_loc n loc) d = fst (RotateLeft (assign_data n loc d))"
proof (cases "RightChildIsRed n")
  case False
  then show ?thesis by (simp add: RotateLeft_id RotateLeft_loc_id)
next
  case True
  then obtain e l pe pl pr pf f where "n = Node e l (Node pe pl pr pf) f" "IsRed pf"
    by (cases n rule: RotateLeft.cases) auto
  then show ?thesis by (auto split: list.splits turn.splits)
qed

lemma assign_data_RotateRight:
  "assign_data (fst (RotateRight n)) (RotateRight_loc n loc) d = fst (RotateRight (assign_data n loc d))"
proof (cases "LeftChildIsRed n")
  case False
  then show ?thesis by (simp add: RotateRight_id RotateRight_loc_id)
next
  case True
  then obtain e pe pl pr pf r f where "n = Node e (Node pe pl pr pf) r f" "IsRed pf"
    by (cases n rule: RotateRight.cases) auto
  then show ?thesis by (auto split: list.splits turn.splits)
qed

lemma ColorFlip_Node:
  "ColorFlip (Node e l r f) =
     (if l \<noteq> Null \<and> r \<noteq> Null then Node e (NSetBlack l) (NSetBlack r) (SetRed f) else Node e l r f)"
  by (cases l; cases r) simp_all

lemma assign_data_NSetBlack: "assign_data (NSetBlack n) loc d = NSetBlack (assign_data n loc d)"
  by (cases "(n, loc, d)" rule: assign_data.cases) simp_all

lemma assign_data_ColorFlip:
  "assign_data (ColorFlip n) loc d = ColorFlip (assign_data n loc d)"
proof (cases n)
  case Null then show ?thesis by simp
next
  case (Node e l r f)
  show ?thesis unfolding Node
    by (simp add: ColorFlip_Node assign_data_Node_cases assign_data_NSetBlack del: assign_data.simps ColorFlip.simps
        split: list.splits turn.splits)
qed

lemma LeftChildIsRed_lchild_assign_data:
  "LeftChildIsRed n \<Longrightarrow> LeftChildIsRed (lchild (assign_data n loc d)) = LeftChildIsRed (lchild n)"
  by (cases "(n, loc, d)" rule: assign_data.cases) simp_all

lemma assign_data_Repair:
  "assign_data (Repair n) (Repair_loc n loc) d = Repair (assign_data n loc d)"
proof -
  define c1 where "c1 = (RightChildIsRed n \<and> \<not> LeftChildIsRed n)"
  define n1 where "n1 = (if c1 then fst (RotateLeft n) else n)"
  define loc1 where "loc1 = (if c1 then RotateLeft_loc n loc else loc)"
  define c2 where "c2 = (LeftChildIsRed n1 \<and> LeftChildIsRed (lchild n1))"
  define n2 where "n2 = (if c2 then fst (RotateRight n1) else n1)"
  define loc2 where "loc2 = (if c2 then RotateRight_loc n1 loc1 else loc1)"
  define m where "m = assign_data n loc d"
  define m1 where "m1 = (if RightChildIsRed m \<and> \<not> LeftChildIsRed m then fst (RotateLeft m) else m)"
  define m2 where "m2 = (if LeftChildIsRed m1 \<and> LeftChildIsRed (lchild m1) then fst (RotateRight m1) else m1)"
  have s1: "m1 = assign_data n1 loc1 d"
    by (simp add: m1_def m_def n1_def loc1_def c1_def assign_data_RotateLeft)
  have c2': "(LeftChildIsRed m1 \<and> LeftChildIsRed (lchild m1)) = c2"
    unfolding s1 c2_def using LeftChildIsRed_lchild_assign_data [of n1 loc1 d] by auto
  have s2: "m2 = assign_data n2 loc2 d"
    unfolding m2_def c2' by (simp add: n2_def loc2_def s1 assign_data_RotateRight)
  have L: "Repair n = (if LeftChildIsRed n2 \<and> RightChildIsRed n2 then ColorFlip n2 else n2)"
    by (simp only: Repair_def Let_def n2_def c2_def n1_def c1_def)
  have Lloc: "Repair_loc n loc = loc2"
    by (simp only: Repair_loc_def Let_def loc2_def c2_def n1_def loc1_def c1_def)
  have R: "Repair m = (if LeftChildIsRed m2 \<and> RightChildIsRed m2 then ColorFlip m2 else m2)"
    by (simp only: Repair_def Let_def m2_def m1_def)
  show ?thesis
    unfolding L Lloc R [unfolded m_def] s2 by (simp add: assign_data_ColorFlip)
qed

lemma assign_data_RGet:
  "assign_data (fst (RGet d0 t k)) (snd (RGet d0 t k)) d = RInsert t k d"
proof (induction t)
  case Null
  show ?case by (simp add: NewNode_def)
next
  case (Node e l r f)
  show ?case using Node.IH
    by (simp add: split_beta assign_data_Repair)
qed

lemma Put_eq_RInsert: "Put d0 k d m = m\<lparr>root := NSetBlack (RInsert (root m) k d)\<rparr>"
  by (simp add: Put_def Get_def split_beta assign_data_NSetBlack assign_data_RGet)

section \<open>Reachable maps keep the invariants\<close>

lemma bst_order_sorted: "bst_order t = keys_sorted (inorder t)"
  by (induction t) (fastforce simp: sorted_wrt_append)+

lemma invc_left_leaning: "invc t \<Longrightarrow> left_leaning t"
  by (induction t) auto

lemma invc_no_red_red_left: "invc t \<Longrightarrow> no_red_red_left t"
  by (induction t) (auto simp: LeftChildIsRed_invc)

lemma invh_black_counts: "invh t \<Longrightarrow> set (black_counts t) = {bheight t}"
  by (induction t) auto

lemma llrb_invariants: "llrb t \<Longrightarrow> invariants t"
  by (cases t) (auto simp: llrb_def invariants_def bst_order_sorted invc_left_leaning invc_no_red_red_left
      invh_black_counts black_balanced_def simp del: left_leaning.simps no_red_red_left.simps bst_order.simps black_counts.simps)

lemma RClone_id [simp]: "RClone t = t"
  by (induction t) (simp_all add: NewNode_def)

lemma llrb_Null [simp]: "llrb Null"
  by (simp add: llrb_def)

lemma llrb_upd: "llrb t \<Longrightarrow> llrb (NSetBlack (upd g t k))"
  using upd_inv [of t g k]
  by (auto simp: llrb_def inorder_upd keys_sorted_upd_list invc_NSetBlack)

lemma Erase_node_inv:
  "invc (Erase_node t k) = invc t \<and> bheight (Erase_node t k) = bheight t
   \<and> IsRedN (Erase_node t k) = IsRedN t \<and> invh (Erase_node t k) = invh t
   \<and> map fst (inorder (Erase_node t k)) = map fst (inorder t)"
  by (induction t) auto

lemma llrb_Erase_node: "llrb t \<Longrightarrow> llrb (Erase_node t k)"
  using Erase_node_inv [of t k] by (simp add: llrb_def)

lemma llrb_Rehash_loop: "llrb t \<Longrightarrow> llrb (Rehash_loop t i)"
  by (induction t i rule: Rehash_loop.induct) (simp_all add: RInsert_upd llrb_upd)

lemma root_Clear [simp]: "root (fst (Clear m)) = Null"
  by (simp add: Clear_def split_beta Let_def)

lemma fst_Clear: "fst (Clear m) = m\<lparr>root := Null\<rparr>"
  by (simp add: Clear_def split_beta Let_def)

lemma reachable_llrb: "reachable d0 m \<Longrightarrow> llrb (root m)"
proof (induction rule: reachable.induct)
  case r_new
  show ?case by (simp add: Map_ADT_new_def)
next
  case (r_Get m k)
  then show ?case by (simp add: Get_def split_beta RGet_upd llrb_upd)
next
  case (r_Put m k d)
  then show ?case by (simp add: Put_eq_RInsert RInsert_upd llrb_upd)
next
  case (r_Insert m k d)
  then show ?case by (simp add: Insert_def Put_eq_RInsert RInsert_upd llrb_upd)
next
  case (r_Erase m k)
  then show ?case by (simp add: Erase_def llrb_Erase_node)
next
  case (r_Clear m)
  show ?case by simp
next
  case (r_Rehash m)
  show ?case by (simp add: Rehash_def Rehash_io_def split_beta Let_def llrb_Rehash_loop)
next
  case (r_copy m)
  then show ?case by (simp add: Map_ADT_copy_def)
next
  case (r_assign st this that)
  then show ?case by (simp add: operator_assign_def assign_from_def)
qed

section \<open>Lookup, erase and resurrection\<close>
lemma live_inorder_mem: "((k, v) \<in> set (live_inorder t)) = ((k, v, True) \<in> set (inorder t))"
  by (force simp: live_inorder_def)

lemma Includes_loop_found:
  "keys_sorted (inorder t) \<Longrightarrow> (k, v, True) \<in> set (inorder t) \<Longrightarrow>
   \<exists>e l r f stk'. Includes_loop t k stk = Node e l r f # stk' \<and> key e = k \<and> data e = v"
proof (induction t arbitrary: stk)
  case Null
  then show ?case by simp
next
  case (Node e l r f)
  from Node.prems(1) have sl: "keys_sorted (inorder l)" and sr: "keys_sorted (inorder r)"
    and lt: "\<forall>x \<in> set (inorder l). fst x < key e" and gt: "\<forall>x \<in> set (inorder r). key e < fst x"
    by (auto simp: sorted_wrt_append)
  show ?case
  proof (cases "k < key e")
    case True
    with Node.prems(2) gt have "(k, v, True) \<in> set (inorder l)" by fastforce
    from Node.IH(1) [OF sl this] True show ?thesis by simp
  next
    case False
    show ?thesis
    proof (cases "key e < k")
      case True
      with Node.prems(2) lt have "(k, v, True) \<in> set (inorder r)" by fastforce
      from Node.IH(2) [OF sr this] True False show ?thesis by simp
    next
      case nlt: False
      with False have "k = key e" by simp
      with Node.prems(2) lt gt have "v = data e \<and> \<not> IsDead f" by fastforce
      then show ?thesis using \<open>k = key e\<close> by simp
    qed
  qed
qed

lemma Includes_loop_absent:
  "keys_sorted (inorder t) \<Longrightarrow> \<forall>v. (k, v, True) \<notin> set (inorder t) \<Longrightarrow>
   Includes_loop t k stk = []"
  by (induction t arbitrary: stk) (auto simp: End_def sorted_wrt_append)

lemma Retrieve_live:
  "keys_sorted (inorder (root m)) \<Longrightarrow> (k, v) \<in> set (live_inorder (root m)) \<Longrightarrow>
   Retrieve m k d = (True, v)"
  using Includes_loop_found [of "root m" k v "[]"]
  by (auto simp: Retrieve_def Includes_def live_inorder_mem)

lemma Retrieve_absent:
  "keys_sorted (inorder (root m)) \<Longrightarrow> \<forall>v. (k, v) \<notin> set (live_inorder (root m)) \<Longrightarrow>
   Retrieve m k d = (False, d)"
  using Includes_loop_absent [of "root m" k "[]"]
  by (auto simp: Retrieve_def Includes_def live_inorder_mem)

lemma RInsert_Erase_node: "RInsert (Erase_node t k) k v = RInsert t k v"
  by (induction t) simp_all

lemma RInsert_present_id:
  "invc t \<Longrightarrow> keys_sorted (inorder t) \<Longrightarrow> (k, v, True) \<in> set (inorder t) \<Longrightarrow> RInsert t k v = t"
proof (induction t)
  case Null
  then show ?case by simp
next
  case (Node e l r f)
  from Node.prems(2) have sl: "keys_sorted (inorder l)" and sr: "keys_sorted (inorder r)"
    and lt: "\<forall>x \<in> set (inorder l). fst x < key e" and gt: "\<forall>x \<in> set (inorder r). key e < fst x"
    by (auto simp: sorted_wrt_append)
  from Node.prems(1) have cl: "invc l" and cr: "invc r" by simp_all
  show ?case
  proof (cases "k < key e")
    case True
    with Node.prems(3) gt have "(k, v, True) \<in> set (inorder l)" by fastforce
    from Node.IH(1) [OF cl sl this] True Repair_invc_id [OF Node.prems(1)] show ?thesis by simp
  next
    case False
    show ?thesis
    proof (cases "key e < k")
      case True
      with Node.prems(3) lt have "(k, v, True) \<in> set (inorder r)" by fastforce
      from Node.IH(2) [OF cr sr this] True False Repair_invc_id [OF Node.prems(1)] show ?thesis by simp
    next
      case nlt: False
      with False have "k = key e" by simp
      with Node.prems(3) lt gt have "v = data e \<and> \<not> IsDead f" by fastforce
      then show ?thesis using \<open>k = key e\<close> Repair_invc_id [OF Node.prems(1)] by (simp add: SetAlive_id)
    qed
  qed
qed

lemma upd_list_mem: "(k, v, True) \<in> set (upd_list (\<lambda>_. v) k xs)"
  by (induction "\<lambda>_::'b option. v" k xs rule: upd_list.induct) auto

lemma NSetBlack_id: "\<not> IsRedN t \<Longrightarrow> NSetBlack t = t"
  by (cases t) (simp_all add: SetBlack_id)

lemma RNumNodes_inorder: "RNumNodes t = length (inorder t)"
  by (induction t) simp_all

lemma RSize_live_inorder: "RSize t = length (live_inorder t)"
  by (induction t) (simp_all add: live_inorder_def)

lemma RNumNodes_Erase_node [simp]: "RNumNodes (Erase_node t k) = RNumNodes t"
  by (induction t) simp_all

lemma Put_Erase_Put:
  assumes "llrb (root m)"
  shows "Put d0 k v (Erase k (Put d0 k v m)) = Put d0 k v m"
proof -
  let ?t1 = "NSetBlack (RInsert (root m) k v)"
  have l1: "llrb ?t1" using assms by (simp add: RInsert_upd llrb_upd)
  have mem: "(k, v, True) \<in> set (inorder ?t1)"
    using assms by (simp add: RInsert_upd inorder_upd llrb_def upd_list_mem)
  have "RInsert (Erase_node ?t1 k) k v = ?t1"
    using l1 mem by (simp add: RInsert_Erase_node RInsert_present_id llrb_def)
  then show ?thesis using l1
    by (simp add: Put_eq_RInsert Erase_def NSetBlack_id llrb_def)
qed

lemma Retrieve_Put:
  assumes "llrb (root m)"
  shows "Retrieve (Put d0 k v m) k d = (True, v)"
proof -
  let ?t1 = "NSetBlack (RInsert (root m) k v)"
  have l1: "llrb ?t1" using assms by (simp add: RInsert_upd llrb_upd)
  have mem: "(k, v, True) \<in> set (inorder ?t1)"
    using assms by (simp add: RInsert_upd inorder_upd llrb_def upd_list_mem)
  show ?thesis
    using l1 mem by (intro Retrieve_live) (simp_all add: Put_eq_RInsert llrb_def live_inorder_mem)
qed

lemma Erase_node_dead:
  "keys_sorted (inorder t) \<Longrightarrow> (k, v, True) \<notin> set (inorder (Erase_node t k))"
proof (induction t)
  case Null
  show ?case by simp
next
  case (Node e l r f)
  from Node.prems have sl: "keys_sorted (inorder l)" and sr: "keys_sorted (inorder r)"
    and lt: "\<forall>x \<in> set (inorder l). fst x < key e" and gt: "\<forall>x \<in> set (inorder r). key e < fst x"
    by (auto simp: sorted_wrt_append)
  show ?case
  proof (cases "k < key e")
    case True
    with gt Node.IH(1) [OF sl] show ?thesis by fastforce
  next
    case False
    show ?thesis
    proof (cases "key e < k")
      case True
      with lt Node.IH(2) [OF sr] False show ?thesis by fastforce
    next
      case nlt: False
      with False lt gt show ?thesis by fastforce
    qed
  qed
qed

lemma Retrieve_Erase:
  assumes "llrb (root m)"
  shows "Retrieve (Erase k m) k d = (False, d)"
proof -
  from assms have s: "keys_sorted (inorder (root m))" by (simp add: llrb_def)
  from llrb_Erase_node [OF assms, of k] have "keys_sorted (inorder (root (Erase k m)))"
    by (simp add: llrb_def Erase_def)
  then show ?thesis
    using Erase_node_dead [OF s, of k]
    by (intro Retrieve_absent) (simp_all add: Erase_def live_inorder_mem)
qed

section \<open>Height\<close>

lemma RHeight_bheight:
  "invc t \<Longrightarrow> invh t \<Longrightarrow> RHeight t + 1 \<le> 2 * int (bheight t) + (if IsRedN t then 1 else 0)"
  by (induction t) (auto simp: Let_def split: if_splits)

lemma bheight_RNumNodes: "invh t \<Longrightarrow> 2 ^ bheight t \<le> RNumNodes t + 1"
  by (induction t) auto

lemma llrb_Height_bound:
  assumes "llrb t"
  shows "real_of_int (RHeight t) \<le> 2 * log 2 (real (RNumNodes t + 1))"
proof -
  from assms have h: "RHeight t + 1 \<le> 2 * int (bheight t)"
    using RHeight_bheight [of t] by (simp add: llrb_def)
  from assms have "2 ^ bheight t \<le> RNumNodes t + 1"
    using bheight_RNumNodes [of t] by (simp add: llrb_def)
  then have "real (bheight t) \<le> log 2 (real (RNumNodes t + 1))"
    by (rule le_log2_of_power)
  moreover from h have "real_of_int (RHeight t) \<le> 2 * real (bheight t)"
    by linarith
  ultimately show ?thesis by linarith
qed

lemma Put_keys:
  assumes "llrb (root m)"
  shows "llrb (root (Put d0 k v m))"
    and "set (map fst (inorder (root (Put d0 k v m)))) = insert k (set (map fst (inorder (root m))))"
    and "NumNodes (Put d0 k v m) = (if k \<in> set (map fst (inorder (root m))) then NumNodes m else Suc (NumNodes m))"
proof -
  show "llrb (root (Put d0 k v m))"
    using assms by (simp add: Put_eq_RInsert RInsert_upd llrb_upd)
  from assms have s: "keys_sorted (inorder (root m))" by (simp add: llrb_def)
  show "set (map fst (inorder (root (Put d0 k v m)))) = insert k (set (map fst (inorder (root m))))"
    using set_upd_list [of "\<lambda>_. v" k "inorder (root m)"]
    by (simp add: Put_eq_RInsert RInsert_upd inorder_upd [OF s])
  show "NumNodes (Put d0 k v m) = (if k \<in> set (map fst (inorder (root m))) then NumNodes m else Suc (NumNodes m))"
    using length_upd_list [OF s, of "\<lambda>_. v" k]
    by (simp add: Put_eq_RInsert RInsert_upd inorder_upd [OF s] NumNodes_def RNumNodes_inorder)
qed

lemma foldl_Put:
  "llrb (root m) \<Longrightarrow> distinct ks \<Longrightarrow> set ks \<inter> set (map fst (inorder (root m))) = {} \<Longrightarrow>
   llrb (root (foldl (\<lambda>m k. Put d0 k (v k) m) m ks))
   \<and> NumNodes (foldl (\<lambda>m k. Put d0 k (v k) m) m ks) = NumNodes m + length ks"
proof (induction ks arbitrary: m)
  case Nil
  then show ?case by simp
next
  case (Cons k ks)
  from Cons.prems have nk: "k \<notin> set (map fst (inorder (root m)))" by auto
  have 1: "llrb (root (Put d0 k (v k) m))" by (rule Put_keys(1) [OF Cons.prems(1)])
  have 2: "set ks \<inter> set (map fst (inorder (root (Put d0 k (v k) m)))) = {}"
    using Cons.prems unfolding Put_keys(2) [OF Cons.prems(1)] by auto
  from Cons.prems have 3: "distinct ks" by simp
  from Cons.IH [OF 1 3 2] nk show ?case
    by (simp add: Put_keys(3) [OF Cons.prems(1)])
qed

lemma monotone_Height_bound:
  assumes "distinct ks"
  shows "real_of_int (Height (foldl (\<lambda>m k. Put d0 k (v k) m) Map_ADT_new ks))
         \<le> 2 * log 2 (real (length ks + 1))"
proof -
  have "llrb (root (Map_ADT_new :: ('a, 'b) Map_ADT))" by (simp add: Map_ADT_new_def)
  from foldl_Put [OF this assms, of d0 v]
  have "llrb (root (foldl (\<lambda>m k. Put d0 k (v k) m) Map_ADT_new ks))"
    and "NumNodes (foldl (\<lambda>m k. Put d0 k (v k) m) Map_ADT_new ks) = length ks"
    by (simp_all add: Map_ADT_new_def NumNodes_def)
  with llrb_Height_bound [of "root (foldl (\<lambda>m k. Put d0 k (v k) m) Map_ADT_new ks)"]
  show ?thesis by (simp add: Height_def NumNodes_def)
qed

section \<open>In-order traversal\<close>

lemma live_inorder_Null [simp]: "live_inorder Null = []"
  by (simp add: live_inorder_def)

lemma live_inorder_Node:
  "live_inorder (Node e l r f) =
     live_inorder l @ (if IsAlive f then [(key e, data e)] else []) @ live_inorder r"
  by (simp add: live_inorder_def)

lemma stack_live_simps [simp]:
  "stack_live [] = []"
  "stack_live (n # stk) = node_live n @ stack_live stk"
  by (simp_all add: stack_live_def)

lemma stack_live_push_left: "stack_live (push_left n stk) = live_inorder n @ stack_live stk"
  by (induction n arbitrary: stk) (simp_all add: live_inorder_Node)

lemma stack_live_Advance:
  "stack_live (Advance (Node e l r f # stk)) = live_inorder r @ stack_live stk"
  by (simp add: stack_live_push_left)

lemma stack_live_SkipDead: "stack_live (SkipDead stk) = stack_live stk"
  by (induction stk rule: SkipDead.induct) (simp_all add: stack_live_push_left)

lemma no_null_push_left: "Null \<notin> set stk \<Longrightarrow> Null \<notin> set (push_left n stk)"
  by (induction n arbitrary: stk) simp_all

lemma no_null_Advance: "Null \<notin> set stk \<Longrightarrow> Null \<notin> set (Advance stk)"
  by (cases stk rule: Advance.cases) (simp_all add: no_null_push_left)

lemma ready_SkipDead: "Null \<notin> set stk \<Longrightarrow> ready (SkipDead stk)"
  by (induction stk rule: SkipDead.induct) (simp_all add: no_null_push_left)

lemma ready_no_null: "ready i \<Longrightarrow> Null \<notin> set i"
  by (cases i rule: ready.cases) simp_all

lemma ready_Increment: "ready i \<Longrightarrow> ready (Increment i)"
  unfolding Increment_def by (intro ready_SkipDead no_null_Advance ready_no_null)

lemma ready_Begin: "ready (Begin m)"
  unfolding Begin_def Init_def by (intro ready_SkipDead no_null_push_left) simp

lemma stack_live_Begin: "stack_live (Begin m) = live_inorder (root m)"
  by (simp add: Begin_def Init_def stack_live_SkipDead stack_live_push_left)

lemma stack_live_Increment:
  "stack_live (Increment (Node e l r f # stk)) = live_inorder r @ stack_live stk"
  by (simp add: Increment_def stack_live_SkipDead stack_live_push_left)

lemma Rehash_loop_foldl:
  "ready i \<Longrightarrow> Rehash_loop t i = foldl rehash_step t (stack_live i)"
proof (induction t i rule: Rehash_loop.induct)
  case (1 newRoot e l r f stk)
  from "1.prems" have "ready (Increment (Node e l r f # stk))" by (rule ready_Increment)
  from "1.IH" [OF this] "1.prems" show ?case
    by (simp add: stack_live_Increment rehash_step_def)
qed simp_all

lemma ready_node_live: "ready (n # stk) \<Longrightarrow> node_live n \<noteq> []"
  by (cases n) simp_all

lemma equal_loop_live:
  "ready i \<Longrightarrow> ready j \<Longrightarrow> equal_loop i j = (stack_live i = stack_live j)"
proof (induction i j rule: equal_loop.induct)
  case (1 e1 l1 r1 f1 s1 e2 l2 r2 f2 s2)
  from "1.prems" have ri: "ready (Increment (Node e1 l1 r1 f1 # s1))"
    and rj: "ready (Increment (Node e2 l2 r2 f2 # s2))" by (simp_all only: ready_Increment)
  show ?case
  proof (cases "key e1 \<noteq> key e2 \<or> data e1 \<noteq> data e2")
    case True
    then show ?thesis using "1.prems" by auto
  next
    case False
    from "1.IH" [OF False ri rj] False "1.prems" show ?thesis
      by (simp add: stack_live_Increment)
  qed
qed (auto dest: ready_node_live)

lemma operator_eq_live: "operator_eq m1 m2 = (live_inorder (root m1) = live_inorder (root m2))"
  by (simp add: operator_eq_def equal_loop_live ready_Begin stack_live_Begin)

section \<open>The location returned by RGet\<close>

text \<open>The path handed back by \<open>RGet\<close> leads to a node that holds the key asked for.\<close>

lemma entry_at_RotateLeft:
  "entry_at (fst (RotateLeft n)) (RotateLeft_loc n loc) = entry_at n loc"
proof (cases "RightChildIsRed n")
  case False
  then show ?thesis by (simp add: RotateLeft_id RotateLeft_loc_id)
next
  case True
  then obtain e l pe pl pr pf f where "n = Node e l (Node pe pl pr pf) f" "IsRed pf"
    by (cases n rule: RotateLeft.cases) auto
  then show ?thesis by (auto split: list.splits turn.splits)
qed

lemma entry_at_RotateRight:
  "entry_at (fst (RotateRight n)) (RotateRight_loc n loc) = entry_at n loc"
proof (cases "LeftChildIsRed n")
  case False
  then show ?thesis by (simp add: RotateRight_id RotateRight_loc_id)
next
  case True
  then obtain e pe pl pr pf r f where "n = Node e (Node pe pl pr pf) r f" "IsRed pf"
    by (cases n rule: RotateRight.cases) auto
  then show ?thesis by (auto split: list.splits turn.splits)
qed

lemma entry_at_NSetBlack [simp]: "entry_at (NSetBlack n) loc = entry_at n loc"
  by (cases "(n, loc)" rule: entry_at.cases) simp_all

lemma entry_at_ColorFlip [simp]: "entry_at (ColorFlip n) loc = entry_at n loc"
proof (cases n)
  case Null
  then show ?thesis by simp
next
  case (Node e l r f)
  then show ?thesis
    by (cases "(n, loc)" rule: entry_at.cases) (simp_all add: ColorFlip_Node del: ColorFlip.simps)
qed

lemma entry_at_Repair: "entry_at (Repair n) (Repair_loc n loc) = entry_at n loc"
proof -
  define c1 where "c1 = (RightChildIsRed n \<and> \<not> LeftChildIsRed n)"
  define n1 where "n1 = (if c1 then fst (RotateLeft n) else n)"
  define loc1 where "loc1 = (if c1 then RotateLeft_loc n loc else loc)"
  define c2 where "c2 = (LeftChildIsRed n1 \<and> LeftChildIsRed (lchild n1))"
  define n2 where "n2 = (if c2 then fst (RotateRight n1) else n1)"
  define loc2 where "loc2 = (if c2 then RotateRight_loc n1 loc1 else loc1)"
  have s1: "entry_at n1 loc1 = entry_at n loc"
    by (simp add: n1_def loc1_def entry_at_RotateLeft)
  have s2: "entry_at n2 loc2 = entry_at n1 loc1"
    by (simp add: n2_def loc2_def entry_at_RotateRight)
  have L: "Repair n = (if LeftChildIsRed n2 \<and> RightChildIsRed n2 then ColorFlip n2 else n2)"
    by (simp only: Repair_def Let_def n2_def c2_def n1_def c1_def)
  have Lloc: "Repair_loc n loc = loc2"
    by (simp only: Repair_loc_def Let_def loc2_def c2_def n1_def loc1_def c1_def)
  show ?thesis unfolding L Lloc using s1 s2 by simp
qed

lemma entry_at_RGet:
  "\<exists>d. entry_at (fst (RGet d0 t k)) (snd (RGet d0 t k)) = Some (Entry k d)"
proof (induction t)
  case Null
  show ?case by (simp add: NewNode_def)
next
  case (Node e l r f)
  have "e = Entry (key e) (data e)" by simp
  then have "\<exists>d. e = Entry (key e) d" ..
  with Node.IH show ?case
    by (auto simp: split_beta entry_at_Repair)
qed

section \<open>Rehash and equality through the iterator\<close>

lemma upd_list_append_max:
  "\<forall>a \<in> set (map fst xs). a < k \<Longrightarrow> upd_list g k xs = xs @ [(k, g None, True)]"
  by (induction g k xs rule: upd_list.induct) auto

lemma inorder_foldl_rehash_step:
  "keys_sorted (inorder t) \<Longrightarrow> sorted_wrt (<) (map fst xs) \<Longrightarrow>
   \<forall>a \<in> set (map fst (inorder t)). \<forall>b \<in> set (map fst xs). a < b \<Longrightarrow>
   inorder (foldl rehash_step t xs) = inorder t @ map (\<lambda>(k, v). (k, v, True)) xs"
proof (induction xs arbitrary: t)
  case Nil
  show ?case by simp
next
  case (Cons x xs)
  obtain k v where x: "x = (k, v)" by (cases x)
  let ?t = "rehash_step t x"
  from Cons.prems(3) have "\<forall>a \<in> set (map fst (inorder t)). a < k" by (simp add: x)
  then have i: "inorder ?t = inorder t @ [(k, v, True)]"
    using Cons.prems(1) by (simp add: x rehash_step_def RInsert_upd inorder_upd upd_list_append_max)
  have s: "keys_sorted (inorder ?t)"
    using Cons.prems(1) by (simp add: x rehash_step_def RInsert_upd inorder_upd keys_sorted_upd_list)
  have b: "\<forall>a \<in> set (map fst (inorder ?t)). \<forall>b \<in> set (map fst xs). a < b"
    unfolding i using Cons.prems(2,3) by (auto simp: x)
  from Cons.prems(2) have "sorted_wrt (<) (map fst xs)" by simp
  from Cons.IH [OF s this b] show ?case by (simp add: i, simp add: x)
qed

lemma live_inorder_sorted:
  "keys_sorted (inorder t) \<Longrightarrow> sorted_wrt (<) (map fst (live_inorder t))"
proof -
  assume "keys_sorted (inorder t)"
  then have "sorted_wrt (\<lambda>a b. fst a < fst b) (inorder t)" by (simp add: sorted_wrt_map)
  then have "sorted_wrt (\<lambda>a b. fst a < fst b) (filter (\<lambda>(k, d, a). a) (inorder t))"
    by (rule sorted_wrt_filter)
  then show ?thesis
    by (simp add: live_inorder_def sorted_wrt_map split_beta)
qed

lemma root_Rehash:
  "root (Rehash m) = foldl rehash_step Null (live_inorder (root m))"
  by (simp add: Rehash_def Rehash_io_def split_beta Let_def Rehash_loop_foldl ready_Begin
      stack_live_Begin)

lemma live_inorder_all_alive:
  "inorder t = map (\<lambda>(k, v). (k, v, True)) xs \<Longrightarrow> live_inorder t = xs"
  by (simp add: live_inorder_def filter_map o_def split_beta)

lemma inorder_Rehash:
  assumes "keys_sorted (inorder (root m))"
  shows "inorder (root (Rehash m)) = map (\<lambda>(k, v). (k, v, True)) (live_inorder (root m))"
  using inorder_foldl_rehash_step [of Null "live_inorder (root m)"] live_inorder_sorted [OF assms]
  by (simp add: root_Rehash)

lemma RNumNodes_pos: "t \<noteq> Null \<Longrightarrow> 0 < RNumNodes t"
  by (cases t) simp_all

lemma RRelease_count: "snd (RRelease t) = RNumNodes t - 1"
proof (induction t)
  case Null
  show ?case by simp
next
  case (Node e l r f)
  then show ?case using RNumNodes_pos [of l] RNumNodes_pos [of r]
    by (auto simp: Let_def)
qed

lemma fst_RRelease_Null [simp]: "(fst (RRelease t) = Null) = (t = Null)"
  by (cases t) (simp_all add: Let_def)

lemma Clear_count: "snd (Clear m) = NumNodes m"
  using RNumNodes_pos [of "root m"]
  by (cases "root m = Null")
     (simp_all add: Clear_def split_beta NumNodes_def RRelease_count del: RRelease.simps)

lemma Rehash_io_eq:
  "Rehash_io m = (m\<lparr>root := Rehash_loop Null (Begin m)\<rparr>, NumNodes m)"
  using Clear_count [of m] fst_Clear [of m]
  by (simp add: Rehash_io_def split_beta Let_def)

lemma sorted_fst_set_unique:
  "sorted_wrt (<) (map fst xs) \<Longrightarrow> sorted_wrt (<) (map fst ys) \<Longrightarrow> set xs = set ys \<Longrightarrow>
   xs = (ys :: ('k::linorder \<times> 'd) list)"
proof (induction xs arbitrary: ys)
  case Nil
  then show ?case by simp
next
  case (Cons x xs)
  from Cons.prems(3) obtain y ys' where ys: "ys = y # ys'" by (cases ys) auto
  from Cons.prems(1) have xmin: "\<forall>a \<in> set xs. fst x < fst a" by simp
  from Cons.prems(2) have ymin: "\<forall>a \<in> set ys'. fst y < fst a" by (simp add: ys)
  have "x = y"
  proof (rule ccontr)
    assume ne: "x \<noteq> y"
    with Cons.prems(3) have "x \<in> set ys'" "y \<in> set xs" by (auto simp: ys)
    with xmin ymin have "fst y < fst x" "fst x < fst y" by auto
    then show False by simp
  qed
  moreover have "set xs = set ys'"
  proof -
    from xmin have "x \<notin> set xs" by auto
    moreover from ymin have "y \<notin> set ys'" by auto
    ultimately show ?thesis using Cons.prems(3) \<open>x = y\<close> by (auto simp: ys)
  qed
  moreover from Cons.prems have "sorted_wrt (<) (map fst xs)" "sorted_wrt (<) (map fst ys')"
    by (simp_all add: ys)
  ultimately show ?case using Cons.IH [of ys'] by (simp add: ys)
qed

section \<open>Rotations on a pivot that is not red\<close>

text \<open>
  Claim C7, as amended. A rotation whose pivot child exists and is not red writes its
  diagnostic to \<open>std::cerr\<close> and returns the node it was given, unchanged. A rotation
  whose pivot child is null returns the node unchanged too, but the guard in front of
  the colour test returns before anything is written: no diagnostic is logged.
\<close>

theorem Rotate_pivot_not_red:
  "(\<not> IsRed pf \<longrightarrow>
      RotateLeft (Node e l (Node pe pl pr pf) f) = (Node e l (Node pe pl pr pf) f, [RotateLeft_msg])
    \<and> RotateRight (Node e (Node pe pl pr pf) r f) = (Node e (Node pe pl pr pf) r f, [RotateRight_msg]))
   \<and> RotateLeft (Node e l Null f) = (Node e l Null f, [])
   \<and> RotateRight (Node e Null r f) = (Node e Null r f, [])"
  by simp

theorem Rotate_pivot_not_red_witness:
  "\<not> IsRed ZERO
   \<and> RotateLeft (Node (Entry (1::nat) ''a'') Null (Node (Entry 2 ''b'') Null Null ZERO) ZERO)
       = (Node (Entry 1 ''a'') Null (Node (Entry 2 ''b'') Null Null ZERO) ZERO,
          ['' ** RotateLeft called with black right child'' @ [CHR 0x0A]])
   \<and> RotateRight (Node (Entry (2::nat) ''b'') (Node (Entry 1 ''a'') Null Null ZERO) Null ZERO)
       = (Node (Entry 2 ''b'') (Node (Entry 1 ''a'') Null Null ZERO) Null ZERO,
          ['' ** RotateRight called with black left child'' @ [CHR 0x0A]])"
proof -
  have h: "\<not> IsRed ZERO" by (simp add: IsRed_def ZERO_def)
  from h Rotate_pivot_not_red [of ZERO "Entry (1::nat) ''a''" Null "Entry 2 ''b''" Null Null ZERO Null]
  have "RotateLeft (Node (Entry (1::nat) ''a'') Null (Node (Entry 2 ''b'') Null Null ZERO) ZERO)
       = (Node (Entry 1 ''a'') Null (Node (Entry 2 ''b'') Null Null ZERO) ZERO, [RotateLeft_msg])"
    by blast
  moreover
  from h Rotate_pivot_not_red [of ZERO "Entry (2::nat) ''b''" Null "Entry 1 ''a''" Null Null ZERO Null]
  have "RotateRight (Node (Entry (2::nat) ''b'') (Node (Entry 1 ''a'') Null Null ZERO) Null ZERO)
       = (Node (Entry 2 ''b'') (Node (Entry 1 ''a'') Null Null ZERO) Null ZERO, [RotateRight_msg])"
    by blast
  ultimately show ?thesis using h by (simp add: RotateLeft_msg_def RotateRight_msg_def)
qed

text \<open>
  The claim as stated fails on a node without a right child: its (null) right child is not
  red, and \<open>RotateLeft\<close> returns it without logging anything.
\<close>

theorem Rotate_null_pivot_counterexample:
  "\<not> RightChildIsRed (Node (Entry (1::nat) ''a'') Null Null DEFAULT)
   \<and> snd (RotateLeft (Node (Entry (1::nat) ''a'') Null Null DEFAULT)) = []
   \<and> snd (RotateLeft (Node (Entry (1::nat) ''a'') Null Null DEFAULT)) \<noteq> [RotateLeft_msg]"
  by simp

section \<open>Structural invariants of reachable maps\<close>

text \<open>
  Claim C2. After any sequence of public operations (construction, Get, Put, Insert, Erase,
  Clear, Rehash, deep copy, assignment) the tree satisfies BST order, it is left-leaning
  (no red right child beside a black left child), no red left child has a red left child,
  every path from the root to a null link passes the same number of black nodes, and the
  root, if present, is black.
\<close>

theorem reachable_invariants:
  "reachable d0 m \<Longrightarrow>
   bst_order (root m) \<and> left_leaning (root m) \<and> no_red_red_left (root m)
   \<and> black_balanced (root m) \<and> root_black (root m)"
proof -
  assume "reachable d0 m"
  then have "invariants (root m)" by (intro llrb_invariants reachable_llrb)
  then show ?thesis by (simp add: invariants_def)
qed

theorem reachable_invariants_witness:
  "reachable '''' (Erase 2 (Put '''' 3 ''c'' (Put '''' 2 ''b'' (Put '''' (1::nat) ''a'' Map_ADT_new))))
   \<and> bst_order (root (Erase 2 (Put '''' 3 ''c'' (Put '''' 2 ''b'' (Put '''' (1::nat) ''a'' Map_ADT_new)))))
   \<and> left_leaning (root (Erase 2 (Put '''' 3 ''c'' (Put '''' 2 ''b'' (Put '''' (1::nat) ''a'' Map_ADT_new)))))
   \<and> no_red_red_left (root (Erase 2 (Put '''' 3 ''c'' (Put '''' 2 ''b'' (Put '''' (1::nat) ''a'' Map_ADT_new)))))
   \<and> black_balanced (root (Erase 2 (Put '''' 3 ''c'' (Put '''' 2 ''b'' (Put '''' (1::nat) ''a'' Map_ADT_new)))))
   \<and> root_black (root (Erase 2 (Put '''' 3 ''c'' (Put '''' 2 ''b'' (Put '''' (1::nat) ''a'' Map_ADT_new)))))"
proof -
  have r: "reachable '''' (Erase 2 (Put '''' 3 ''c'' (Put '''' 2 ''b'' (Put '''' (1::nat) ''a'' Map_ADT_new))))"
    by (intro reachable.intros)
  from reachable_invariants [OF r] r show ?thesis by blast
qed

section \<open>Put against RInsert\<close>

text \<open>
  Claim C6. For every tree, key and value, \<open>Put\<close> (\<open>RGet\<close>, the root set to black, and the
  value assigned through the returned reference) produces exactly the tree that \<open>RInsert\<close>
  at the root followed by setting the root black produces: the same structure, colours,
  liveness bits and entries, whether the key is new, live or tombstoned.
\<close>

theorem Put_refines_Put_spec: "Put d0 k d m = Put_spec k d m"
  by (simp add: Put_eq_RInsert Put_spec_def)

section \<open>Height bound\<close>

text \<open>
  Claim C3. For every map state reachable by public operations, \<open>Height()\<close> is at most
  \<open>2 * log\<^sub>2 (NumNodes() + 1)\<close>; in particular, putting the keys \<open>1..N\<close> in ascending
  order into a fresh map, or in descending order, yields a height of at most
  \<open>2 * log\<^sub>2 (N + 1)\<close>, whatever the values are.
\<close>

theorem Height_log_bound:
  "(reachable d0 m \<longrightarrow> real_of_int (Height m) \<le> 2 * log 2 (real (NumNodes m + 1)))
   \<and> real_of_int (Height (foldl (\<lambda>m k. Put d0 k (v k) m) Map_ADT_new [1..<Suc N]))
       \<le> 2 * log 2 (real (N + 1))
   \<and> real_of_int (Height (foldl (\<lambda>m k. Put d0 k (v k) m) Map_ADT_new (rev [1..<Suc N])))
       \<le> 2 * log 2 (real (N + 1))"
proof -
  have "reachable d0 m \<longrightarrow> real_of_int (Height m) \<le> 2 * log 2 (real (NumNodes m + 1))"
    using llrb_Height_bound [OF reachable_llrb, of d0 m] by (simp add: Height_def NumNodes_def)
  moreover have "real_of_int (Height (foldl (\<lambda>m k. Put d0 k (v k) m) Map_ADT_new [1..<Suc N]))
       \<le> 2 * log 2 (real (N + 1))"
    using monotone_Height_bound [of "[1..<Suc N]" d0 v] by (simp del: upt_Suc)
  moreover have "real_of_int (Height (foldl (\<lambda>m k. Put d0 k (v k) m) Map_ADT_new (rev [1..<Suc N])))
       \<le> 2 * log 2 (real (N + 1))"
    using monotone_Height_bound [of "rev [1..<Suc N]" d0 v] by (simp del: upt_Suc)
  ultimately show ?thesis by blast
qed

theorem Height_log_bound_witness:
  "reachable '''' (Erase 2 (Put '''' 3 ''c'' (Put '''' 2 ''b'' (Put '''' (1::nat) ''a'' Map_ADT_new))))
   \<and> Height (Erase 2 (Put '''' 3 ''c'' (Put '''' 2 ''b'' (Put '''' (1::nat) ''a'' Map_ADT_new)))) = 1
   \<and> NumNodes (Erase 2 (Put '''' 3 ''c'' (Put '''' 2 ''b'' (Put '''' (1::nat) ''a'' Map_ADT_new)))) = 3
   \<and> (1::real) \<le> 2 * log 2 (real (3 + 1))"
proof -
  let ?m = "Erase 2 (Put '''' 3 ''c'' (Put '''' 2 ''b'' (Put '''' (1::nat) ''a'' Map_ADT_new)))"
  have r: "reachable '''' ?m"
    by (intro reachable.intros)
  have e: "Height ?m = 1" "NumNodes ?m = 3"
    by (simp_all add: Put_eq_RInsert Erase_def Map_ADT_new_def NewNode_def Repair_def Let_def
        Height_def NumNodes_def)
  from Height_log_bound [of "''''" ?m, THEN conjunct1, rule_format, OF r] r e
  show ?thesis by simp
qed

section \<open>Put, Erase, Put\<close>

text \<open>
  Claim C4. For every map, key \<open>k\<close> and value \<open>v\<close>, after \<open>Put(k,v); Erase(k); Put(k,v)\<close>
  \<open>Retrieve(k, &out)\<close> returns true with \<open>out = v\<close>, and the second \<open>Put\<close> leaves
  \<open>NumNodes()\<close> unchanged. \<open>Erase\<close> frees nothing: it leaves \<open>NumNodes()\<close> unchanged and the
  key is no longer retrieved. The second \<open>Put\<close> resurrects the tombstone in place: the map
  is again exactly the map after the first \<open>Put\<close>.
\<close>

theorem Put_Erase_Put_resurrects:
  "reachable d0 m \<Longrightarrow>
     Retrieve (Put d0 k v (Erase k (Put d0 k v m))) k d = (True, v)
   \<and> NumNodes (Put d0 k v (Erase k (Put d0 k v m))) = NumNodes (Erase k (Put d0 k v m))
   \<and> NumNodes (Erase k (Put d0 k v m)) = NumNodes (Put d0 k v m)
   \<and> Retrieve (Erase k (Put d0 k v m)) k d = (False, d)
   \<and> Put d0 k v (Erase k (Put d0 k v m)) = Put d0 k v m"
proof -
  assume "reachable d0 m"
  then have l: "llrb (root m)" by (rule reachable_llrb)
  have l1: "llrb (root (Put d0 k v m))" by (rule Put_keys(1) [OF l])
  have e: "Put d0 k v (Erase k (Put d0 k v m)) = Put d0 k v m" by (rule Put_Erase_Put [OF l])
  have n: "NumNodes (Erase k (Put d0 k v m)) = NumNodes (Put d0 k v m)"
    by (simp add: NumNodes_def Erase_def)
  show ?thesis
    unfolding e using n Retrieve_Put [OF l] Retrieve_Erase [OF l1] by simp
qed

theorem Put_Erase_Put_resurrects_witness:
  "reachable '''' (Put '''' 2 ''b'' (Put '''' (1::nat) ''a'' Map_ADT_new))
   \<and> Retrieve (Put '''' 3 ''c'' (Erase 3 (Put '''' 3 ''c'' (Put '''' 2 ''b'' (Put '''' (1::nat) ''a'' Map_ADT_new))))) 3 ''z''
       = (True, ''c'')
   \<and> NumNodes (Put '''' 3 ''c'' (Erase 3 (Put '''' 3 ''c'' (Put '''' 2 ''b'' (Put '''' (1::nat) ''a'' Map_ADT_new))))) = 3
   \<and> NumNodes (Erase 3 (Put '''' 3 ''c'' (Put '''' 2 ''b'' (Put '''' (1::nat) ''a'' Map_ADT_new)))) = 3
   \<and> Size (Erase 3 (Put '''' 3 ''c'' (Put '''' 2 ''b'' (Put '''' (1::nat) ''a'' Map_ADT_new)))) = 2"
proof -
  have r: "reachable '''' (Put '''' 2 ''b'' (Put '''' (1::nat) ''a'' Map_ADT_new))"
    by (intro reachable.intros)
  have n: "NumNodes (Put '''' 3 ''c'' (Put '''' 2 ''b'' (Put '''' (1::nat) ''a'' Map_ADT_new))) = 3"
    "Size (Erase 3 (Put '''' 3 ''c'' (Put '''' 2 ''b'' (Put '''' (1::nat) ''a'' Map_ADT_new)))) = 2"
    by (simp_all add: Put_eq_RInsert Erase_def Map_ADT_new_def NewNode_def Repair_def Let_def
        NumNodes_def Size_def)
  note t = Put_Erase_Put_resurrects [OF r, of 3 "''c''" "''z''"]
  from t [THEN conjunct1] t [THEN conjunct2, THEN conjunct1]
    t [THEN conjunct2, THEN conjunct2, THEN conjunct1] r n
  show ?thesis by simp
qed

section \<open>Retrieve\<close>

text \<open>
  Claim C5. For every map and key \<open>k\<close>, \<open>Retrieve(k, &d)\<close> returns true if and only if a live
  entry with key \<open>k\<close> exists in the tree, and then \<open>d\<close> holds the stored value; if the key is
  absent, or present only as a tombstone, it returns false and \<open>d\<close> is what it was.
\<close>

theorem Retrieve_iff_live_entry:
  "reachable d0 m \<Longrightarrow>
     (fst (Retrieve m k d) \<longleftrightarrow> (\<exists>v. (k, v) \<in> set (live_inorder (root m))))
   \<and> (\<forall>v. (k, v) \<in> set (live_inorder (root m)) \<longrightarrow> Retrieve m k d = (True, v))
   \<and> ((\<forall>v. (k, v) \<notin> set (live_inorder (root m))) \<longrightarrow> Retrieve m k d = (False, d))"
proof -
  assume "reachable d0 m"
  then have s: "keys_sorted (inorder (root m))" using reachable_llrb [of d0 m] by (simp add: llrb_def)
  have a: "\<forall>v. (k, v) \<in> set (live_inorder (root m)) \<longrightarrow> Retrieve m k d = (True, v)"
    using Retrieve_live [OF s] by blast
  have b: "(\<forall>v. (k, v) \<notin> set (live_inorder (root m))) \<longrightarrow> Retrieve m k d = (False, d)"
    using Retrieve_absent [OF s] by blast
  from a b have "fst (Retrieve m k d) \<longleftrightarrow> (\<exists>v. (k, v) \<in> set (live_inorder (root m)))"
    by (metis fst_conv)
  with a b show ?thesis by blast
qed

theorem Retrieve_iff_live_entry_witness:
  "reachable '''' (Erase 2 (Put '''' 3 ''c'' (Put '''' 2 ''b'' (Put '''' (1::nat) ''a'' Map_ADT_new))))
   \<and> live_inorder (root (Erase 2 (Put '''' 3 ''c'' (Put '''' 2 ''b'' (Put '''' (1::nat) ''a'' Map_ADT_new)))))
       = [(1, ''a''), (3, ''c'')]
   \<and> Retrieve (Erase 2 (Put '''' 3 ''c'' (Put '''' 2 ''b'' (Put '''' (1::nat) ''a'' Map_ADT_new)))) 3 ''z''
       = (True, ''c'')
   \<and> Retrieve (Erase 2 (Put '''' 3 ''c'' (Put '''' 2 ''b'' (Put '''' (1::nat) ''a'' Map_ADT_new)))) 2 ''z''
       = (False, ''z'')
   \<and> Retrieve (Erase 2 (Put '''' 3 ''c'' (Put '''' 2 ''b'' (Put '''' (1::nat) ''a'' Map_ADT_new)))) 7 ''z''
       = (False, ''z'')"
proof -
  let ?m = "Erase 2 (Put '''' 3 ''c'' (Put '''' 2 ''b'' (Put '''' (1::nat) ''a'' Map_ADT_new)))"
  have r: "reachable '''' ?m"
    by (intro reachable.intros)
  have l: "live_inorder (root ?m) = [(1, ''a''), (3, ''c'')]"
    by (simp add: Put_eq_RInsert Erase_def Map_ADT_new_def NewNode_def Repair_def Let_def live_inorder_def)
  from Retrieve_iff_live_entry [OF r, of 3 "''z''"] Retrieve_iff_live_entry [OF r, of 2 "''z''"]
    Retrieve_iff_live_entry [OF r, of 7 "''z''"] r
  show ?thesis unfolding l by simp
qed

section \<open>Rehash\<close>

text \<open>
  Claim C1. For every map state reachable by public operations, \<open>Rehash()\<close> leaves the map
  without tombstones (\<open>NumNodes() = Size()\<close> afterwards), with the live in-order sequence of
  (key, value) pairs it had before the call, and with all structural invariants.
\<close>

theorem Rehash_compacts:
  "reachable d0 m \<Longrightarrow>
     NumNodes (Rehash m) = Size (Rehash m)
   \<and> live_inorder (root (Rehash m)) = live_inorder (root m)
   \<and> bst_order (root (Rehash m)) \<and> left_leaning (root (Rehash m))
   \<and> no_red_red_left (root (Rehash m)) \<and> black_balanced (root (Rehash m))
   \<and> root_black (root (Rehash m))"
proof -
  assume r: "reachable d0 m"
  then have s: "keys_sorted (inorder (root m))" using reachable_llrb [of d0 m] by (simp add: llrb_def)
  note i = inorder_Rehash [OF s]
  have l: "live_inorder (root (Rehash m)) = live_inorder (root m)"
    by (rule live_inorder_all_alive [OF i])
  have n: "NumNodes (Rehash m) = Size (Rehash m)"
    by (simp add: NumNodes_def Size_def RNumNodes_inorder RSize_live_inorder l i)
  from r have "reachable d0 (Rehash m)" by (rule r_Rehash)
  then have "invariants (root (Rehash m))" by (intro llrb_invariants reachable_llrb)
  with l n show ?thesis by (simp add: invariants_def)
qed

theorem Rehash_compacts_witness:
  "reachable '''' (Erase 2 (Put '''' 3 ''c'' (Put '''' 2 ''b'' (Put '''' (1::nat) ''a'' Map_ADT_new))))
   \<and> NumNodes (Erase 2 (Put '''' 3 ''c'' (Put '''' 2 ''b'' (Put '''' (1::nat) ''a'' Map_ADT_new)))) = 3
   \<and> Size (Erase 2 (Put '''' 3 ''c'' (Put '''' 2 ''b'' (Put '''' (1::nat) ''a'' Map_ADT_new)))) = 2
   \<and> NumNodes (Rehash (Erase 2 (Put '''' 3 ''c'' (Put '''' 2 ''b'' (Put '''' (1::nat) ''a'' Map_ADT_new)))))
       = Size (Rehash (Erase 2 (Put '''' 3 ''c'' (Put '''' 2 ''b'' (Put '''' (1::nat) ''a'' Map_ADT_new)))))
   \<and> live_inorder (root (Rehash (Erase 2 (Put '''' 3 ''c'' (Put '''' 2 ''b'' (Put '''' (1::nat) ''a'' Map_ADT_new))))))
       = [(1, ''a''), (3, ''c'')]"
proof -
  let ?m = "Erase 2 (Put '''' 3 ''c'' (Put '''' 2 ''b'' (Put '''' (1::nat) ''a'' Map_ADT_new)))"
  have r: "reachable '''' ?m"
    by (intro reachable.intros)
  have e: "NumNodes ?m = 3" "Size ?m = 2" "live_inorder (root ?m) = [(1, ''a''), (3, ''c'')]"
    by (simp_all add: Put_eq_RInsert Erase_def Map_ADT_new_def NewNode_def Repair_def Let_def
        NumNodes_def Size_def live_inorder_def)
  note t = Rehash_compacts [OF r]
  from t [THEN conjunct1] t [THEN conjunct2, THEN conjunct1] r e show ?thesis by simp
qed

text \<open>
  Claim C9. For every non-empty map whose nodes are all tombstones (\<open>Size() = 0\<close> and
  \<open>NumNodes() > 0\<close>), \<open>Rehash()\<close> leaves the map empty: the loop over the live entries
  inserts nothing, the root is null, \<open>Empty()\<close> holds and \<open>NumNodes() = 0\<close>; and \<open>Rehash()\<close>
  releases the old tree with all its dead nodes: the call deletes as many nodes as the map
  had, through the \<open>Clear\<close> it runs.
\<close>

theorem Rehash_all_tombstones:
  "Size m = 0 \<Longrightarrow> 0 < NumNodes m \<Longrightarrow>
     root (Rehash m) = Null \<and> Empty (Rehash m) \<and> NumNodes (Rehash m) = 0
   \<and> Rehash_loop Null (Begin m) = Null
   \<and> Rehash_io m = (m\<lparr>root := Null\<rparr>, NumNodes m)
   \<and> snd (Clear m) = NumNodes m"
proof -
  assume "Size m = 0"
  then have "live_inorder (root m) = []" by (simp add: Size_def RSize_live_inorder)
  then have "root (Rehash m) = Null" by (simp add: root_Rehash)
  moreover have "Rehash_loop Null (Begin m) = root (Rehash m)"
    by (simp add: Rehash_def Rehash_io_eq)
  ultimately show ?thesis
    by (simp add: Empty_def NumNodes_def Rehash_io_eq Clear_count [unfolded NumNodes_def])
qed

theorem Rehash_all_tombstones_witness:
  "Size (Erase 2 (Erase 1 (Put '''' 2 ''b'' (Put '''' (1::nat) ''a'' Map_ADT_new)))) = 0
   \<and> NumNodes (Erase 2 (Erase 1 (Put '''' 2 ''b'' (Put '''' (1::nat) ''a'' Map_ADT_new)))) = 2
   \<and> root (Rehash (Erase 2 (Erase 1 (Put '''' 2 ''b'' (Put '''' (1::nat) ''a'' Map_ADT_new))))) = Null
   \<and> Empty (Rehash (Erase 2 (Erase 1 (Put '''' 2 ''b'' (Put '''' (1::nat) ''a'' Map_ADT_new)))))
   \<and> NumNodes (Rehash (Erase 2 (Erase 1 (Put '''' 2 ''b'' (Put '''' (1::nat) ''a'' Map_ADT_new))))) = 0
   \<and> snd (Rehash_io (Erase 2 (Erase 1 (Put '''' 2 ''b'' (Put '''' (1::nat) ''a'' Map_ADT_new))))) = 2"
proof -
  let ?m = "Erase 2 (Erase 1 (Put '''' 2 ''b'' (Put '''' (1::nat) ''a'' Map_ADT_new)))"
  have e: "Size ?m = 0" "NumNodes ?m = 2"
    by (simp_all add: Put_eq_RInsert Erase_def Map_ADT_new_def NewNode_def Repair_def Let_def
        NumNodes_def Size_def)
  have p: "0 < NumNodes ?m" unfolding e(2) by simp
  from Rehash_all_tombstones [OF e(1) p] e show ?thesis by simp
qed

section \<open>Equality\<close>

text \<open>
  Claim C8. \<open>operator==\<close> returns true if and only if the live in-order sequences of
  (key, value) pairs of the two maps are identical. In particular two reachable maps with
  the same set of live entries compare equal, however they were built and whatever their
  node structures are.
\<close>

theorem operator_eq_live_sequences:
  "operator_eq m1 m2 = (live_inorder (root m1) = live_inorder (root m2))
   \<and> (reachable d0 m1 \<and> reachable d0 m2
        \<and> set (live_inorder (root m1)) = set (live_inorder (root m2)) \<longrightarrow> operator_eq m1 m2)"
proof -
  have a: "operator_eq m1 m2 = (live_inorder (root m1) = live_inorder (root m2))"
    by (rule operator_eq_live)
  have "operator_eq m1 m2"
    if r: "reachable d0 m1" "reachable d0 m2"
      and s: "set (live_inorder (root m1)) = set (live_inorder (root m2))"
  proof -
    from r have "keys_sorted (inorder (root m1))" "keys_sorted (inorder (root m2))"
      using reachable_llrb [of d0 m1] reachable_llrb [of d0 m2] by (simp_all add: llrb_def)
    then have "sorted_wrt (<) (map fst (live_inorder (root m1)))"
      "sorted_wrt (<) (map fst (live_inorder (root m2)))" by (simp_all only: live_inorder_sorted)
    from sorted_fst_set_unique [OF this s] show ?thesis by (simp add: a)
  qed
  with a show ?thesis by blast
qed

theorem operator_eq_live_sequences_witness:
  "reachable '''' (Put '''' 4 ''d'' (Put '''' 3 ''c'' (Put '''' 2 ''b'' (Put '''' (1::nat) ''a'' Map_ADT_new))))
   \<and> reachable '''' (Put '''' 1 ''a'' (Put '''' 2 ''b'' (Put '''' 3 ''c'' (Put '''' (4::nat) ''d'' Map_ADT_new))))
   \<and> root (Put '''' 4 ''d'' (Put '''' 3 ''c'' (Put '''' 2 ''b'' (Put '''' (1::nat) ''a'' Map_ADT_new))))
       \<noteq> root (Put '''' 1 ''a'' (Put '''' 2 ''b'' (Put '''' 3 ''c'' (Put '''' (4::nat) ''d'' Map_ADT_new))))
   \<and> operator_eq (Put '''' 4 ''d'' (Put '''' 3 ''c'' (Put '''' 2 ''b'' (Put '''' (1::nat) ''a'' Map_ADT_new))))
                 (Put '''' 1 ''a'' (Put '''' 2 ''b'' (Put '''' 3 ''c'' (Put '''' (4::nat) ''d'' Map_ADT_new))))"
proof -
  let ?m1 = "Put '''' 4 ''d'' (Put '''' 3 ''c'' (Put '''' 2 ''b'' (Put '''' (1::nat) ''a'' Map_ADT_new)))"
  let ?m2 = "Put '''' 1 ''a'' (Put '''' 2 ''b'' (Put '''' 3 ''c'' (Put '''' (4::nat) ''d'' Map_ADT_new)))"
  have r: "reachable '''' ?m1" "reachable '''' ?m2"
    by (intro reachable.intros)+
  have e1: "live_inorder (root ?m1) = [(1, ''a''), (2, ''b''), (3, ''c''), (4, ''d'')]"
    by (simp add: Put_eq_RInsert Map_ADT_new_def NewNode_def Repair_def Let_def live_inorder_def)
  have e2: "live_inorder (root ?m2) = [(1, ''a''), (2, ''b''), (3, ''c''), (4, ''d'')]"
    by (simp add: Put_eq_RInsert Map_ADT_new_def NewNode_def Repair_def Let_def live_inorder_def)
  have ne: "root ?m1 \<noteq> root ?m2"
    by (simp add: Put_eq_RInsert Map_ADT_new_def NewNode_def Repair_def Let_def)
  from operator_eq_live_sequences [of ?m1 ?m2 "''''", THEN conjunct2, rule_format] r e1 e2
  have "operator_eq ?m1 ?m2" by simp
  with r ne show ?thesis by simp
qed

section \<open>Self-assignment\<close>

text \<open>
  Claim C10. Assigning a map to itself leaves it as it is, entries, liveness bits, colours
  and structure (the store is unchanged), deletes and allocates no node, and returns a
  reference to the map.
\<close>

theorem self_assignment:
  "operator_assign a a st = (st, a, 0, 0)"
  by (simp add: operator_assign_def)

end
